theory Spec2Isabelle
  imports Main "HOL-Library.Word" "HOL-Library.Multiset"
begin

section \<open>C integer arithmetic\<close>

text \<open>
  The engine computes with C \<open>int\<close>. Division and remainder truncate towards zero in C,
  whereas \<open>div\<close> and \<open>mod\<close> on \<open>int\<close> round downwards, so both are written out.
  Every value the engine computes stays far below \<open>2 ^ 31\<close> for a key that passes
  validation (the perimeter then has at most 256 slots), so \<open>int\<close> is used unbounded.
\<close>

definition c_div :: "int \<Rightarrow> int \<Rightarrow> int" where
  "c_div a b = sgn a * sgn b * (\<bar>a\<bar> div \<bar>b\<bar>)"

definition c_mod :: "int \<Rightarrow> int \<Rightarrow> int" where
  "c_mod a b = sgn a * (\<bar>a\<bar> mod \<bar>b\<bar>)"

section \<open>The mirror field (modules/mirrorfield.c)\<close>

text \<open>
  \<open>GRID_SIZE\<close> is a macro of \<open>main.h\<close>; every function takes it as the parameter \<open>N\<close>.
  The static variables of the module, together with the function-local statics
  (\<open>i\<close> of \<open>mirrorfield_set\<close>, \<open>evenodd\<close> of \<open>mirrorfield_crypt_char\<close>,
  \<open>lastStartCharPos\<close> and \<open>lastEndCharPos\<close> of \<open>mirrorfield_roll_chars\<close>), form the
  state of the engine.
\<close>

abbreviation (input) MIRROR_NONE :: int where "MIRROR_NONE \<equiv> 3"
abbreviation (input) MIRROR_FORWARD :: int where "MIRROR_FORWARD \<equiv> 0"
abbreviation (input) MIRROR_STRAIGHT :: int where "MIRROR_STRAIGHT \<equiv> 1"
abbreviation (input) MIRROR_BACKWARD :: int where "MIRROR_BACKWARD \<equiv> 2"

datatype direction = DIR_DOWN | DIR_LEFT | DIR_RIGHT | DIR_UP

record mirrorfield =
  grid :: "int list"
  perimeterChars :: "8 word list"
  set_i :: int
  evenodd :: int
  lastStartCharPos :: int
  lastEndCharPos :: int

text \<open>The state at program start: the initialisers of the statics.\<close>

definition mirrorfield_start :: "int \<Rightarrow> mirrorfield" where
  "mirrorfield_start N =
     \<lparr>grid = replicate (nat (N * N)) 0,
      perimeterChars = replicate (nat (N * 4)) 0,
      set_i = - 1, evenodd = 0, lastStartCharPos = - 1, lastEndCharPos = - 1\<rparr>"

definition mirrorfield_init :: "int \<Rightarrow> mirrorfield \<Rightarrow> mirrorfield" where
  "mirrorfield_init N st =
     st\<lparr>grid := replicate (nat (N * N)) 0, perimeterChars := replicate (nat (N * 4)) 0\<rparr>"

subsection \<open>Loading\<close>

text \<open>
  \<open>mirrorfield_set\<close>: the glyphs are \<open>'/'\<close> = 47, \<open>'\\'\<close> = 92, \<open>'-'\<close> = 45 and
  \<open>' '\<close> = 32. The counter \<open>i\<close> is a \<open>static int\<close> that starts at -1 and is incremented
  before anything else, also on a call that fails. An \<open>int\<close> has 32 bits, so \<open>++i\<close> at
  \<open>INT_MAX\<close> = 2147483647 is a signed overflow, which C leaves undefined: the model returns
  the error \<open>Signed_Overflow\<close> there and says nothing about the call.
\<close>

abbreviation (input) INT_MAX :: int where "INT_MAX \<equiv> 2147483647"

datatype set_error = Signed_Overflow

definition mirrorfield_set :: "int \<Rightarrow> 8 word \<Rightarrow> mirrorfield \<Rightarrow> set_error + int \<times> mirrorfield" where
  "mirrorfield_set N ch st =
     (if INT_MAX \<le> set_i st then Inl Signed_Overflow
      else
       (let i = set_i st + 1;
            st = st\<lparr>set_i := i\<rparr>
        in if i < N * N then
             (let t = (c_div i N) * N + (c_mod i N)
              in if ch = 47 then Inr (1, st\<lparr>grid := (grid st)[nat t := MIRROR_FORWARD]\<rparr>)
                 else if ch = 92 then Inr (1, st\<lparr>grid := (grid st)[nat t := MIRROR_BACKWARD]\<rparr>)
                 else if ch = 45 then Inr (1, st\<lparr>grid := (grid st)[nat t := MIRROR_STRAIGHT]\<rparr>)
                 else if ch = 32 then Inr (1, st\<lparr>grid := (grid st)[nat t := MIRROR_NONE]\<rparr>)
                 else Inr (0, st))
           else
             (let t = i - N * N
              in if t < N * 4 then Inr (1, st\<lparr>perimeterChars := (perimeterChars st)[nat t := ch]\<rparr>)
                 else Inr (0, st))))"

subsection \<open>Validation\<close>

function check_mirrors :: "int \<Rightarrow> int list \<Rightarrow> int \<Rightarrow> bool" where
  "check_mirrors N g i =
     (if i < N * N then
        (if g ! nat i < 0 \<or> g ! nat i > 3 then False else check_mirrors N g (i + 1))
      else True)"
  by pat_completeness auto
termination
  by (relation "measure (\<lambda>(N, g, i). nat (N * N - i))") auto

declare check_mirrors.simps [simp del]

function check_dup_inner :: "int \<Rightarrow> 8 word list \<Rightarrow> int \<Rightarrow> int \<Rightarrow> bool" where
  "check_dup_inner N p i i2 =
     (if i2 < N * 4 then
        (if p ! nat i = p ! nat i2 then False else check_dup_inner N p i (i2 + 1))
      else True)"
  by pat_completeness auto
termination
  by (relation "measure (\<lambda>(N, p, i, i2). nat (N * 4 - i2))") auto

declare check_dup_inner.simps [simp del]

function check_dup :: "int \<Rightarrow> 8 word list \<Rightarrow> int \<Rightarrow> bool" where
  "check_dup N p i =
     (if i < N * 4 then
        (if check_dup_inner N p i (i + 1) then check_dup N p (i + 1) else False)
      else True)"
  by pat_completeness auto
termination
  by (relation "measure (\<lambda>(N, p, i). nat (N * 4 - i))") auto

declare check_dup.simps [simp del]

definition mirrorfield_validate :: "int \<Rightarrow> mirrorfield \<Rightarrow> int" where
  "mirrorfield_validate N st =
     (if \<not> check_mirrors N (grid st) 0 then 0
      else if \<not> check_dup N (perimeterChars st) 0 then 0
      else 1)"

subsection \<open>Rolling the perimeter\<close>

text \<open>The three assignments through \<open>tempChar\<close>.\<close>

definition swap_chars :: "int \<Rightarrow> int \<Rightarrow> 8 word list \<Rightarrow> 8 word list" where
  "swap_chars a b p =
     (let tempChar = p ! nat a;
          p = p[nat a := p ! nat b]
      in p[nat b := tempChar])"

partial_function (option) roll_start_loop ::
  "int \<Rightarrow> int \<Rightarrow> int \<Rightarrow> int \<Rightarrow> int \<Rightarrow> int \<Rightarrow> int option" where
  "roll_start_loop N startCharPos endCharPos lastStart lastEnd startRollCharPos =
     (if startRollCharPos = startCharPos \<or> startRollCharPos = endCharPos
         \<or> startRollCharPos = lastStart \<or> startRollCharPos = lastEnd
      then roll_start_loop N startCharPos endCharPos lastStart lastEnd
             (c_mod (startRollCharPos + c_div N 2) (N * 4))
      else Some startRollCharPos)"

declare roll_start_loop.simps [code]

partial_function (option) roll_end_loop ::
  "int \<Rightarrow> int \<Rightarrow> int \<Rightarrow> int \<Rightarrow> int \<Rightarrow> int \<Rightarrow> int option" where
  "roll_end_loop N startCharPos endCharPos lastStart lastEnd endRollCharPos =
     (if endRollCharPos = endCharPos \<or> endRollCharPos = startCharPos
         \<or> endRollCharPos = lastEnd \<or> endRollCharPos = lastStart
      then roll_end_loop N startCharPos endCharPos lastStart lastEnd
             (c_mod (endRollCharPos + c_div N 2) (N * 4))
      else Some endRollCharPos)"

declare roll_end_loop.simps [code]

definition roll_pos :: "int \<Rightarrow> 8 word list \<Rightarrow> int \<Rightarrow> int" where
  "roll_pos N p pos =
     (if pos = 0 then c_mod (pos + uint (p ! nat pos) + uint (p ! nat (pos + 1))) (N * 4)
      else c_mod (pos + uint (p ! nat pos) + uint (p ! nat (pos - 1))) (N * 4))"

definition mirrorfield_roll_chars :: "int \<Rightarrow> int \<Rightarrow> int \<Rightarrow> mirrorfield \<Rightarrow> mirrorfield option" where
  "mirrorfield_roll_chars N startCharPos endCharPos st =
     (let p = perimeterChars st
      in case roll_start_loop N startCharPos endCharPos (lastStartCharPos st) (lastEndCharPos st)
                (roll_pos N p startCharPos) of
           None \<Rightarrow> None
         | Some startRollCharPos \<Rightarrow>
           (case roll_end_loop N startCharPos endCharPos (lastStartCharPos st) (lastEndCharPos st)
                   (roll_pos N p endCharPos) of
              None \<Rightarrow> None
            | Some endRollCharPos \<Rightarrow>
                Some (st\<lparr>perimeterChars :=
                            (if uint (p ! nat startCharPos) > uint (p ! nat endCharPos)
                             then swap_chars endCharPos endRollCharPos
                                    (swap_chars startCharPos startRollCharPos p)
                             else swap_chars startCharPos startRollCharPos
                                    (swap_chars endCharPos endRollCharPos p)),
                         lastStartCharPos := startCharPos,
                         lastEndCharPos := endCharPos\<rparr>)))"

subsection \<open>Encrypting one character\<close>

text \<open>
  The scan for the input byte ends at \<open>GRID_SIZE * 4\<close> when the byte is on no slot.
\<close>

function find_start :: "int \<Rightarrow> 8 word list \<Rightarrow> 8 word \<Rightarrow> int \<Rightarrow> int" where
  "find_start N p ch startCharPos =
     (if startCharPos < N * 4 then
        (if p ! nat startCharPos = ch then startCharPos
         else find_start N p ch (startCharPos + 1))
      else startCharPos)"
  by pat_completeness auto
termination
  by (relation "measure (\<lambda>(N, p, ch, s). nat (N * 4 - s))") auto

declare find_start.simps [simp del]

text \<open>
  The entry chain has no final \<open>else\<close>: for a position of \<open>GRID_SIZE * 4\<close> or more
  neither \<open>r\<close> nor \<open>c\<close> is assigned, which is \<open>None\<close> here.
\<close>

definition entry :: "int \<Rightarrow> int \<Rightarrow> (int \<times> int \<times> direction) option" where
  "entry N startCharPos =
     (if startCharPos < N then Some (0, startCharPos, DIR_DOWN)
      else if startCharPos < N * 2 then Some (startCharPos - N, N - 1, DIR_LEFT)
      else if startCharPos < N * 3 then Some (startCharPos - N * 2, 0, DIR_RIGHT)
      else if startCharPos < N * 4 then Some (N - 1, startCharPos - N * 3, DIR_UP)
      else None)"

definition reflect :: "int \<Rightarrow> direction \<Rightarrow> direction" where
  "reflect g d =
     (if g = MIRROR_FORWARD then
        (case d of DIR_DOWN \<Rightarrow> DIR_LEFT | DIR_LEFT \<Rightarrow> DIR_DOWN
                 | DIR_RIGHT \<Rightarrow> DIR_UP | DIR_UP \<Rightarrow> DIR_RIGHT)
      else if g = MIRROR_BACKWARD then
        (case d of DIR_DOWN \<Rightarrow> DIR_RIGHT | DIR_LEFT \<Rightarrow> DIR_UP
                 | DIR_RIGHT \<Rightarrow> DIR_DOWN | DIR_UP \<Rightarrow> DIR_LEFT)
      else d)"

text \<open>
  The traversal loop \<open>while (endCharPos < 0)\<close>, with the variables of the loop as
  arguments. It returns the exit position and the grid as the loop leaves it; \<open>None\<close>
  is a ray that never leaves the grid.
\<close>

partial_function (option) traverse ::
  "int \<Rightarrow> int \<Rightarrow> int \<Rightarrow> direction \<Rightarrow> int \<Rightarrow> int list \<Rightarrow> int list
     \<Rightarrow> (int \<times> int list) option" where
  "traverse N r c d endCharPos g visited =
     (if endCharPos < 0 then
        (let t = r * N + c;
             g1 = (if visited ! nat t \<noteq> 0 then g[nat t := c_mod (g ! nat t + 2) 3] else g);
             d1 = reflect (g1 ! nat t) d;
             g2 = (if g1 ! nat t \<noteq> MIRROR_NONE then g1[nat t := c_mod (g1 ! nat t + 1) 3]
                   else g1);
             visited1 = (if g1 ! nat t \<noteq> MIRROR_NONE then visited[nat t := 1] else visited)
         in case d1 of
              DIR_DOWN \<Rightarrow> if r + 1 = N then traverse N (r + 1) c d1 (c + N * 3) g2 visited1
                          else traverse N (r + 1) c d1 endCharPos g2 visited1
            | DIR_LEFT \<Rightarrow> if c - 1 = - 1 then traverse N r (c - 1) d1 (r + N * 2) g2 visited1
                          else traverse N r (c - 1) d1 endCharPos g2 visited1
            | DIR_RIGHT \<Rightarrow> if c + 1 = N then traverse N r (c + 1) d1 (r + N) g2 visited1
                           else traverse N r (c + 1) d1 endCharPos g2 visited1
            | DIR_UP \<Rightarrow> if r - 1 = - 1 then traverse N (r - 1) c d1 c g2 visited1
                        else traverse N (r - 1) c d1 endCharPos g2 visited1)
      else Some (endCharPos, g))"

declare traverse.simps [code]

text \<open>
  A call whose input byte is on no slot reads the unassigned \<open>r\<close> and \<open>c\<close>: undefined
  behaviour in C, which the model reports together with the state reached by then.
  The \<open>debug\<close> argument only drives the renderer and is left out.
\<close>

datatype error = Undefined_Behaviour mirrorfield

definition mirrorfield_crypt_char ::
  "int \<Rightarrow> 8 word \<Rightarrow> mirrorfield \<Rightarrow> (error + 8 word \<times> mirrorfield) option" where
  "mirrorfield_crypt_char N ch st =
     (let st1 = st\<lparr>evenodd := c_mod (evenodd st + 1) 2\<rparr>;
          p = perimeterChars st1;
          startCharPos = find_start N p ch 0
      in case entry N startCharPos of
           None \<Rightarrow> Some (Inl (Undefined_Behaviour st1))
         | Some (r, c, d) \<Rightarrow>
           (case traverse N r c d (- 1) (grid st1) (replicate (nat (N * N)) 0) of
              None \<Rightarrow> None
            | Some (endCharPos, g) \<Rightarrow>
              (let st2 = st1\<lparr>grid := g\<rparr>;
                   ech = p ! nat endCharPos;
                   ech = (if uint (p ! nat startCharPos) = startCharPos
                             \<or> uint (p ! nat endCharPos) = endCharPos
                          then (if evenodd st2 \<noteq> 0 then p ! nat startCharPos else ech)
                          else ech)
               in case mirrorfield_roll_chars N startCharPos endCharPos st2 of
                    None \<Rightarrow> None
                  | Some st3 \<Rightarrow> Some (Inr (ech, st3)))))"

text \<open>
  Modelled from the spec: \<open>crypt_stream\<close>, the driver that pipes a message through the
  engine one byte at a time (its caller in \<open>main.c\<close> is not part of the modules). The
  engine is passed explicitly, so two engines loaded from one key are two copies of a state.
\<close>

fun crypt_stream ::
  "int \<Rightarrow> mirrorfield \<Rightarrow> 8 word list \<Rightarrow> (error + 8 word list \<times> mirrorfield) option" where
  "crypt_stream N st [] = Some (Inr ([], st))"
| "crypt_stream N st (ch # M) =
     (case mirrorfield_crypt_char N ch st of
        None \<Rightarrow> None
      | Some (Inl err) \<Rightarrow> Some (Inl err)
      | Some (Inr (ech, st1)) \<Rightarrow>
        (case crypt_stream N st1 M of
           None \<Rightarrow> None
         | Some (Inl err) \<Rightarrow> Some (Inl err)
         | Some (Inr (C, st2)) \<Rightarrow> Some (Inr (ech # C, st2))))"

text \<open>
  A key that passes validation: the two arrays have their declared sizes and
  \<open>mirrorfield_validate\<close> returns 1.
\<close>

definition valid_key :: "int \<Rightarrow> mirrorfield \<Rightarrow> bool" where
  "valid_key N st \<longleftrightarrow>
     length (grid st) = nat (N * N) \<and> length (perimeterChars st) = nat (N * 4)
     \<and> mirrorfield_validate N st = 1"

section \<open>The key file (modules/keyfile.c)\<close>

text \<open>
  \<open>rand()\<close> is the sequence of its results: \<open>rand k\<close> is the result of call number \<open>k\<close>,
  and the functions thread the number of calls made so far. \<open>rand() % strlen(str)\<close> is
  computed in \<open>size_t\<close>; on the empty string it divides by zero.
\<close>

datatype keyfile_error = Division_By_Zero

partial_function (option) draw_rIndex ::
  "(nat \<Rightarrow> nat) \<Rightarrow> nat \<Rightarrow> string \<Rightarrow> int \<Rightarrow> (int \<times> nat) option" where
  "draw_rIndex rand k str sIndex =
     (let rIndex = int (rand k mod length str)
      in if rIndex = sIndex then draw_rIndex rand (k + 1) str sIndex
         else Some (rIndex, k + 1))"

declare draw_rIndex.simps [code]

partial_function (option) shuffle_loop ::
  "(nat \<Rightarrow> nat) \<Rightarrow> nat \<Rightarrow> string \<Rightarrow> int \<Rightarrow> int \<Rightarrow> int \<Rightarrow> char \<Rightarrow> (string \<times> char \<times> nat) option" where
  "shuffle_loop rand k str p sIndex i c1 =
     (if i < p then
        (case draw_rIndex rand k str sIndex of
           None \<Rightarrow> None
         | Some (rIndex, k1) \<Rightarrow>
             shuffle_loop rand k1 (str[nat rIndex := c1]) p sIndex (i + 1) (str ! nat rIndex))
      else Some (str, c1, k))"

declare shuffle_loop.simps [code]

definition keyfile_shuffle_string ::
  "(nat \<Rightarrow> nat) \<Rightarrow> nat \<Rightarrow> string \<Rightarrow> int \<Rightarrow> (keyfile_error + string \<times> nat) option" where
  "keyfile_shuffle_string rand k str p =
     (if length str = 0 then Some (Inl Division_By_Zero)
      else
        (let sIndex = int (rand k mod length str);
             rIndex = sIndex;
             c1 = str ! nat rIndex
         in case shuffle_loop rand (k + 1) str p sIndex 0 c1 of
              None \<Rightarrow> None
            | Some (str1, c1, k1) \<Rightarrow> Some (Inr (str1[nat sIndex := c1], k1))))"

section \<open>The roll procedure as the specification words it\<close>

definition neigh :: "int \<Rightarrow> int" where
  "neigh x = (if x = 0 then x + 1 else x - 1)"

partial_function (option) spec_avoid :: "int \<Rightarrow> int set \<Rightarrow> int \<Rightarrow> int option" where
  "spec_avoid N forbidden pos =
     (if pos \<in> forbidden then spec_avoid N forbidden ((pos + N div 2) mod (4 * N))
      else Some pos)"

declare spec_avoid.simps [code]

definition spec_swap :: "8 word list \<Rightarrow> int \<Rightarrow> int \<Rightarrow> 8 word list" where
  "spec_swap perim a b = perim[nat a := perim ! nat b, nat b := perim ! nat a]"

definition spec_roll :: "int \<Rightarrow> int \<Rightarrow> int \<Rightarrow> mirrorfield \<Rightarrow> mirrorfield option" where
  "spec_roll N s e st =
     (let P = 4 * N;
          perim = perimeterChars st;
          lastStart = lastStartCharPos st;
          lastEnd = lastEndCharPos st;
          rs0 = (s + uint (perim ! nat s) + uint (perim ! nat (neigh s))) mod P;
          re0 = (e + uint (perim ! nat e) + uint (perim ! nat (neigh e))) mod P
      in case spec_avoid N {s, e, lastStart, lastEnd} rs0 of
           None \<Rightarrow> None
         | Some rs \<Rightarrow>
           (case spec_avoid N {e, s, lastEnd, lastStart} re0 of
              None \<Rightarrow> None
            | Some re \<Rightarrow>
                Some (st\<lparr>perimeterChars :=
                            (if uint (perim ! nat s) > uint (perim ! nat e)
                             then spec_swap (spec_swap perim s rs) e re
                             else spec_swap (spec_swap perim e re) s rs),
                         lastStartCharPos := s,
                         lastEndCharPos := e\<rparr>)))"

section \<open>The ray on a fixed grid\<close>

text \<open>
  Within one character every mirror reflects with the code it had when the character
  began (a revisited mirror is un-spun first), so the ray moves as on a grid that does
  not change. The definitions below describe that motion; the lemmas relate the
  traversal loop to it.
\<close>

type_synonym ray = "int \<times> int \<times> direction"

definition inside :: "int \<Rightarrow> ray \<Rightarrow> bool" where
  "inside N x \<longleftrightarrow> (case x of (r, c, d) \<Rightarrow> 0 \<le> r \<and> r < N \<and> 0 \<le> c \<and> c < N)"

definition cell :: "int \<Rightarrow> ray \<Rightarrow> nat" where
  "cell N x = (case x of (r, c, d) \<Rightarrow> nat (r * N + c))"

definition ray_step :: "int \<Rightarrow> int list \<Rightarrow> ray \<Rightarrow> ray + int" where
  "ray_step N g x =
     (case x of (r, c, d) \<Rightarrow>
        (case reflect (g ! nat (r * N + c)) d of
           DIR_DOWN \<Rightarrow> if r + 1 = N then Inr (c + N * 3) else Inl (r + 1, c, DIR_DOWN)
         | DIR_LEFT \<Rightarrow> if c - 1 = - 1 then Inr (r + N * 2) else Inl (r, c - 1, DIR_LEFT)
         | DIR_RIGHT \<Rightarrow> if c + 1 = N then Inr (r + N) else Inl (r, c + 1, DIR_RIGHT)
         | DIR_UP \<Rightarrow> if r - 1 = - 1 then Inr c else Inl (r - 1, c, DIR_UP)))"

text \<open>The cell a ray in a given state has just left.\<close>

fun behind :: "ray \<Rightarrow> int \<times> int" where
  "behind (r, c, DIR_DOWN) = (r - 1, c)"
| "behind (r, c, DIR_LEFT) = (r, c + 1)"
| "behind (r, c, DIR_RIGHT) = (r, c - 1)"
| "behind (r, c, DIR_UP) = (r + 1, c)"

fun ray_iter :: "int \<Rightarrow> int list \<Rightarrow> nat \<Rightarrow> ray \<Rightarrow> ray + int" where
  "ray_iter N g 0 x = Inl x"
| "ray_iter N g (Suc k) x =
     (case ray_step N g x of Inl y \<Rightarrow> ray_iter N g k y | Inr e \<Rightarrow> Inr e)"

text \<open>\<open>run N g x S e\<close>: the ray in state \<open>x\<close> crosses exactly the cells \<open>S\<close> and leaves at slot \<open>e\<close>.\<close>

inductive run :: "int \<Rightarrow> int list \<Rightarrow> ray \<Rightarrow> nat set \<Rightarrow> int \<Rightarrow> bool" for N g where
  run_exit: "ray_step N g x = Inr e \<Longrightarrow> run N g x {cell N x} e"
| run_step: "ray_step N g x = Inl y \<Longrightarrow> run N g y S e \<Longrightarrow> run N g x (insert (cell N x) S) e"

text \<open>The grid and the visited array once the cells \<open>V\<close> have been crossed.\<close>

definition spun :: "int list \<Rightarrow> nat set \<Rightarrow> int list" where
  "spun g V =
     map (\<lambda>t. if t \<in> V \<and> g ! t \<noteq> MIRROR_NONE then (g ! t + 1) mod 3 else g ! t) [0..<length g]"

definition seen :: "int list \<Rightarrow> nat set \<Rightarrow> int list" where
  "seen g V = map (\<lambda>t. if t \<in> V \<and> g ! t \<noteq> MIRROR_NONE then 1 else 0) [0..<length g]"

fun opp :: "direction \<Rightarrow> direction" where
  "opp DIR_DOWN = DIR_UP"
| "opp DIR_UP = DIR_DOWN"
| "opp DIR_LEFT = DIR_RIGHT"
| "opp DIR_RIGHT = DIR_LEFT"

text \<open>The state in which the reversed ray crosses the same cell.\<close>

definition flip :: "int \<Rightarrow> int list \<Rightarrow> ray \<Rightarrow> ray" where
  "flip N g x = (case x of (r, c, d) \<Rightarrow> (r, c, opp (reflect (g ! nat (r * N + c)) d)))"

text \<open>The byte a call returns for entry slot \<open>s\<close> and exit slot \<open>e\<close>, by the parity rule.\<close>

definition emitted :: "8 word list \<Rightarrow> int \<Rightarrow> int \<Rightarrow> int \<Rightarrow> 8 word" where
  "emitted p eo s e =
     (if (uint (p ! nat s) = s \<or> uint (p ! nat e) = e) \<and> eo \<noteq> 0 then p ! nat s
      else p ! nat e)"

text \<open>The slot straight ahead of a ray, and the slot across the grid from slot \<open>s\<close>.\<close>

definition straight_exit :: "int \<Rightarrow> ray \<Rightarrow> int" where
  "straight_exit N x =
     (case x of (r, c, d) \<Rightarrow>
        (case d of DIR_DOWN \<Rightarrow> c + N * 3 | DIR_LEFT \<Rightarrow> r + N * 2
                 | DIR_RIGHT \<Rightarrow> r + N | DIR_UP \<Rightarrow> c))"

definition opposite_slot :: "int \<Rightarrow> int \<Rightarrow> int" where
  "opposite_slot N s =
     (if s < N then s + 3 * N
      else if s < 2 * N then s + N
      else if s < 3 * N then s - N
      else s - 3 * N)"

text \<open>Two engines that differ at most in the order of the two remembered positions.\<close>

definition twin :: "mirrorfield \<Rightarrow> mirrorfield \<Rightarrow> bool" where
  "twin a b \<longleftrightarrow>
     grid a = grid b \<and> perimeterChars a = perimeterChars b \<and> evenodd a = evenodd b
     \<and> {lastStartCharPos a, lastEndCharPos a} = {lastStartCharPos b, lastEndCharPos b}"

text \<open>
  Modelled from the spec: the loader, which feeds the bytes of a key to
  \<open>mirrorfield_set\<close> in order and stops at the first call that returns 0 (its loop is in
  \<open>main.c\<close>, not part of the modules). An overflow of the call counter ends the load with
  that error.
\<close>

fun load_key :: "int \<Rightarrow> 8 word list \<Rightarrow> mirrorfield \<Rightarrow> set_error + int \<times> mirrorfield" where
  "load_key N [] st = Inr (1, st)"
| "load_key N (ch # K) st =
     (case mirrorfield_set N ch st of
        Inl err \<Rightarrow> Inl err
      | Inr (ok, st1) \<Rightarrow> if ok = 0 then Inr (0, st1) else load_key N K st1)"

section \<open>Concrete keys\<close>

text \<open>A key for \<open>N = 2\<close>: mirrors \<open>/\<close>, empty, \<open>\\<close>, \<open>-\<close> and the perimeter \<open>ABCDEFGH\<close>.\<close>

definition key2 :: mirrorfield where
  "key2 = \<lparr>grid = [0, 3, 2, 1], perimeterChars = [65, 66, 67, 68, 69, 70, 71, 72],
            set_i = 11, evenodd = 0, lastStartCharPos = - 1, lastEndCharPos = - 1\<rparr>"

text \<open>The same perimeter around a grid without mirrors.\<close>


definition key2_empty :: mirrorfield where
  "key2_empty = \<lparr>grid = [3, 3, 3, 3], perimeterChars = [65, 66, 67, 68, 69, 70, 71, 72],
                  set_i = 11, evenodd = 0, lastStartCharPos = - 1, lastEndCharPos = - 1\<rparr>"

text \<open>A key for \<open>N = 1\<close>: one empty cell and the perimeter bytes 4, 8, 1, 2.\<close>

definition key1 :: mirrorfield where
  "key1 = \<lparr>grid = [3], perimeterChars = [4, 8, 1, 2],
            set_i = 4, evenodd = 0, lastStartCharPos = - 1, lastEndCharPos = - 1\<rparr>"

section \<open>Arithmetic and list helpers\<close>

lemma c_div_mod_eq: "c_div a b * b + c_mod a b = a"
proof -
  have "c_div a b * b + c_mod a b = sgn a * ((\<bar>a\<bar> div \<bar>b\<bar>) * (sgn b * b) + \<bar>a\<bar> mod \<bar>b\<bar>)"
    by (simp add: c_div_def c_mod_def algebra_simps)
  also have "sgn b * b = \<bar>b\<bar>" by (simp add: abs_sgn mult.commute)
  also have "(\<bar>a\<bar> div \<bar>b\<bar>) * \<bar>b\<bar> + \<bar>a\<bar> mod \<bar>b\<bar> = \<bar>a\<bar>" by simp
  also have "sgn a * \<bar>a\<bar> = a" by (rule mult_sgn_abs)
  finally show ?thesis .
qed

lemma c_mod_nonneg: "0 \<le> a \<Longrightarrow> 0 < b \<Longrightarrow> c_mod a b = a mod b"
  by (cases "a = 0") (simp_all add: c_mod_def)

lemma c_div_nonneg: "0 \<le> a \<Longrightarrow> 0 < b \<Longrightarrow> c_div a b = a div b"
  by (cases "a = 0") (simp_all add: c_div_def)

lemma replicate_4: "replicate 4 x = [x, x, x, x]"
  by (simp add: numeral_eq_Suc)

lemma replicate_8: "replicate 8 x = [x, x, x, x, x, x, x, x]"
  by (simp add: numeral_eq_Suc)

section \<open>Validation\<close>

lemma check_mirrors_iff:
  "check_mirrors N g i \<longleftrightarrow> (\<forall>j. i \<le> j \<and> j < N * N \<longrightarrow> 0 \<le> g ! nat j \<and> g ! nat j \<le> 3)"
proof (induction N g i rule: check_mirrors.induct)
  case (1 N g i)
  show ?case
  proof (cases "i < N * N")
    case False
    then show ?thesis by (subst check_mirrors.simps) auto
  next
    case True
    show ?thesis
    proof (cases "g ! nat i < 0 \<or> g ! nat i > 3")
      case bad: True
      with True show ?thesis by (subst check_mirrors.simps) force
    next
      case ok: False
      have split: "\<And>j. i \<le> j \<longleftrightarrow> j = i \<or> i + 1 \<le> j" by auto
      from True ok 1 have "check_mirrors N g i \<longleftrightarrow>
          (\<forall>j. i + 1 \<le> j \<and> j < N * N \<longrightarrow> 0 \<le> g ! nat j \<and> g ! nat j \<le> 3)"
        by (subst check_mirrors.simps) simp
      also have "\<dots> \<longleftrightarrow> (\<forall>j. i \<le> j \<and> j < N * N \<longrightarrow> 0 \<le> g ! nat j \<and> g ! nat j \<le> 3)"
        using ok True by (auto simp: split)
      finally show ?thesis .
    qed
  qed
qed

lemma check_dup_inner_iff:
  "check_dup_inner N p i i2 \<longleftrightarrow> (\<forall>j. i2 \<le> j \<and> j < N * 4 \<longrightarrow> p ! nat i \<noteq> p ! nat j)"
proof (induction N p i i2 rule: check_dup_inner.induct)
  case (1 N p i i2)
  show ?case
  proof (cases "i2 < N * 4")
    case False
    then show ?thesis by (subst check_dup_inner.simps) auto
  next
    case True
    show ?thesis
    proof (cases "p ! nat i = p ! nat i2")
      case bad: True
      with True show ?thesis by (subst check_dup_inner.simps) force
    next
      case ok: False
      have split: "\<And>j. i2 \<le> j \<longleftrightarrow> j = i2 \<or> i2 + 1 \<le> j" by auto
      from True ok 1 have "check_dup_inner N p i i2 \<longleftrightarrow>
          (\<forall>j. i2 + 1 \<le> j \<and> j < N * 4 \<longrightarrow> p ! nat i \<noteq> p ! nat j)"
        by (subst check_dup_inner.simps) simp
      also have "\<dots> \<longleftrightarrow> (\<forall>j. i2 \<le> j \<and> j < N * 4 \<longrightarrow> p ! nat i \<noteq> p ! nat j)"
        using ok True by (auto simp: split)
      finally show ?thesis .
    qed
  qed
qed

lemma check_dup_iff:
  "check_dup N p i \<longleftrightarrow> (\<forall>a b. i \<le> a \<and> a < b \<and> b < N * 4 \<longrightarrow> p ! nat a \<noteq> p ! nat b)"
proof (induction N p i rule: check_dup.induct)
  case (1 N p i)
  show ?case
  proof (cases "i < N * 4")
    case False
    then show ?thesis by (subst check_dup.simps) auto
  next
    case True
    show ?thesis
    proof (cases "check_dup_inner N p i (i + 1)")
      case bad: False
      then obtain j where "i + 1 \<le> j" "j < N * 4" "p ! nat i = p ! nat j"
        by (auto simp: check_dup_inner_iff)
      then have "\<not> (\<forall>a b. i \<le> a \<and> a < b \<and> b < N * 4 \<longrightarrow> p ! nat a \<noteq> p ! nat b)"
        by (intro notI) (auto dest!: spec[of _ i] spec[of _ j])
      with True bad show ?thesis by (subst check_dup.simps) simp
    next
      case ok: True
      have split: "\<And>j. i \<le> j \<longleftrightarrow> j = i \<or> i + 1 \<le> j" by auto
      from True ok 1 have "check_dup N p i \<longleftrightarrow>
          (\<forall>a b. i + 1 \<le> a \<and> a < b \<and> b < N * 4 \<longrightarrow> p ! nat a \<noteq> p ! nat b)"
        by (subst check_dup.simps) simp
      also have "\<dots> \<longleftrightarrow> (\<forall>a b. i \<le> a \<and> a < b \<and> b < N * 4 \<longrightarrow> p ! nat a \<noteq> p ! nat b)"
      proof
        assume h: "\<forall>a b. i + 1 \<le> a \<and> a < b \<and> b < N * 4 \<longrightarrow> p ! nat a \<noteq> p ! nat b"
        show "\<forall>a b. i \<le> a \<and> a < b \<and> b < N * 4 \<longrightarrow> p ! nat a \<noteq> p ! nat b"
        proof (intro allI impI)
          fix a b assume ab: "i \<le> a \<and> a < b \<and> b < N * 4"
          show "p ! nat a \<noteq> p ! nat b"
          proof (cases "a = i")
            case True
            with ab ok[unfolded check_dup_inner_iff, rule_format, of b] show ?thesis by simp
          next
            case False
            with ab h[rule_format, of a b] show ?thesis by simp
          qed
        qed
      next
        assume h: "\<forall>a b. i \<le> a \<and> a < b \<and> b < N * 4 \<longrightarrow> p ! nat a \<noteq> p ! nat b"
        then show "\<forall>a b. i + 1 \<le> a \<and> a < b \<and> b < N * 4 \<longrightarrow> p ! nat a \<noteq> p ! nat b"
          by simp
      qed
      finally show ?thesis .
    qed
  qed
qed

lemma all_int_nat_less:
  "(\<forall>j::int. 0 \<le> j \<and> j < int n \<longrightarrow> P (nat j)) \<longleftrightarrow> (\<forall>k<n. P k)"
proof
  assume h: "\<forall>j::int. 0 \<le> j \<and> j < int n \<longrightarrow> P (nat j)"
  show "\<forall>k<n. P k"
  proof (intro allI impI)
    fix k assume "k < n"
    with h[rule_format, of "int k"] show "P k" by simp
  qed
next
  assume h: "\<forall>k<n. P k"
  show "\<forall>j::int. 0 \<le> j \<and> j < int n \<longrightarrow> P (nat j)"
  proof (intro allI impI)
    fix j :: int assume "0 \<le> j \<and> j < int n"
    then have "nat j < n" by linarith
    with h show "P (nat j)" by simp
  qed
qed

lemma check_mirrors_0:
  assumes "length g = nat (N * N)"
  shows "check_mirrors N g 0 \<longleftrightarrow> (\<forall>x\<in>set g. x \<in> {0, 1, 2, 3})"
proof -
  have r: "\<And>x::int. (0 \<le> x \<and> x \<le> 3) = (x \<in> {0, 1, 2, 3})" by auto
  have "N * N = int (length g)" using assms by simp
  then have "check_mirrors N g 0 \<longleftrightarrow> (\<forall>j. 0 \<le> j \<and> j < int (length g) \<longrightarrow> 0 \<le> g ! nat j \<and> g ! nat j \<le> 3)"
    by (simp add: check_mirrors_iff)
  also have "\<dots> \<longleftrightarrow> (\<forall>k<length g. 0 \<le> g ! k \<and> g ! k \<le> 3)"
    by (rule all_int_nat_less)
  also have "\<dots> \<longleftrightarrow> (\<forall>x\<in>set g. x \<in> {0, 1, 2, 3})"
    unfolding r by (simp add: all_set_conv_all_nth)
  finally show ?thesis .
qed

lemma check_dup_0:
  assumes "length p = nat (N * 4)"
  shows "check_dup N p 0 \<longleftrightarrow> distinct p"
proof
  assume c: "check_dup N p 0"
  show "distinct p"
    unfolding distinct_conv_nth
  proof (intro allI impI)
    fix i j assume ij: "i < length p" "j < length p" "i \<noteq> j"
    have lt: "\<And>a b. a < b \<Longrightarrow> b < length p \<Longrightarrow> p ! a \<noteq> p ! b"
    proof -
      fix a b assume "a < b" "b < length p"
      then have "0 \<le> int a \<and> int a < int b \<and> int b < N * 4" using assms by auto
      with c[unfolded check_dup_iff, rule_format, of "int a" "int b"] show "p ! a \<noteq> p ! b" by simp
    qed
    show "p ! i \<noteq> p ! j"
    proof (cases "i < j")
      case True with ij lt show ?thesis by blast
    next
      case False with ij have "j < i" by simp
      with ij lt[of j i] show ?thesis by auto
    qed
  qed
next
  assume d: "distinct p"
  show "check_dup N p 0"
    unfolding check_dup_iff
  proof (intro allI impI)
    fix a b :: int assume h: "0 \<le> a \<and> a < b \<and> b < N * 4"
    then have "nat a < length p" "nat b < length p" "nat a \<noteq> nat b" using assms by auto
    with d show "p ! nat a \<noteq> p ! nat b" by (simp add: nth_eq_iff_index_eq)
  qed
qed

text \<open>
  Claim C5. For arrays of their declared sizes, \<open>mirrorfield_validate\<close> returns 1 when
  every grid cell is one of 0, 1, 2, 3 and no two perimeter slots hold the same byte, and
  returns 0 in every other case.
\<close>

theorem validate_iff:
  assumes "length (grid st) = nat (N * N)" and "length (perimeterChars st) = nat (N * 4)"
  shows "mirrorfield_validate N st =
           (if (\<forall>x\<in>set (grid st). x \<in> {0, 1, 2, 3}) \<and> distinct (perimeterChars st) then 1 else 0)"
  using assms by (simp add: mirrorfield_validate_def check_mirrors_0 check_dup_0)

theorem validate_iff_witness:
  "length (grid key2) = nat (2 * 2) \<and> length (perimeterChars key2) = nat (2 * 4)
   \<and> mirrorfield_validate 2 key2 = 1
   \<and> mirrorfield_validate 2 (key2\<lparr>perimeterChars := [65, 66, 67, 68, 69, 70, 71, 65]\<rparr>) = 0
   \<and> mirrorfield_validate 2 (key2\<lparr>grid := [0, 3, 4, 1]\<rparr>) = 0"
  using validate_iff [of key2 2]
    validate_iff [of "key2\<lparr>perimeterChars := [65, 66, 67, 68, 69, 70, 71, 65]\<rparr>" 2]
    validate_iff [of "key2\<lparr>grid := [0, 3, 4, 1]\<rparr>" 2]
  by (simp add: key2_def)

section \<open>Loading\<close>

text \<open>
  Claim C7, as the code has it. A call of \<open>mirrorfield_set\<close> made after \<open>k\<close> earlier calls
  (\<open>k = set_i st + 1\<close>), while the \<open>int\<close> counter can still be incremented
  (\<open>set_i st < INT_MAX\<close>, that is, for the first \<open>2^31\<close> calls), stores the cell code of the
  glyph into cell \<open>k\<close> of the grid while \<open>k < N * N\<close>, with \<open>'/'\<close>, \<open>'\\'\<close>, \<open>'-'\<close>, \<open>' '\<close>
  stored as 0, 2, 1, 3, and returns 0 for any other byte; it stores the byte itself into
  perimeter slot \<open>k - N * N\<close> for the next \<open>4 * N\<close> calls; and it returns 0 on every later
  call. The counter advances on every call.
\<close>

theorem mirrorfield_set_loading:
  assumes "- 1 \<le> set_i st" and "set_i st < 2147483647"
  shows "mirrorfield_set N ch st =
     Inr (if set_i st + 1 < N * N then
        (if ch = 47 then (1, st\<lparr>set_i := set_i st + 1, grid := (grid st)[nat (set_i st + 1) := 0]\<rparr>)
         else if ch = 92 then (1, st\<lparr>set_i := set_i st + 1, grid := (grid st)[nat (set_i st + 1) := 2]\<rparr>)
         else if ch = 45 then (1, st\<lparr>set_i := set_i st + 1, grid := (grid st)[nat (set_i st + 1) := 1]\<rparr>)
         else if ch = 32 then (1, st\<lparr>set_i := set_i st + 1, grid := (grid st)[nat (set_i st + 1) := 3]\<rparr>)
         else (0, st\<lparr>set_i := set_i st + 1\<rparr>))
      else if set_i st + 1 < N * N + N * 4 then
        (1, st\<lparr>set_i := set_i st + 1,
               perimeterChars := (perimeterChars st)[nat (set_i st + 1 - N * N) := ch]\<rparr>)
      else (0, st\<lparr>set_i := set_i st + 1\<rparr>))"
  using assms by (simp add: mirrorfield_set_def Let_def c_div_mod_eq)

theorem mirrorfield_set_loading_witness:
  "- 1 \<le> set_i (mirrorfield_start 2) \<and> set_i (mirrorfield_start 2) < 2147483647
   \<and> mirrorfield_set 2 45 (mirrorfield_start 2)
       = Inr (1, (mirrorfield_start 2)\<lparr>set_i := 0, grid := [1, 0, 0, 0]\<rparr>)"
  using mirrorfield_set_loading [of "mirrorfield_start 2" 2 45]
  by (simp add: mirrorfield_start_def replicate_4 replicate_8)

text \<open>
  The claim as worded maps \<open>'\\'\<close> to 1 and \<open>'-'\<close> to 2; the code stores 2 for \<open>'\\'\<close>
  (\<open>MIRROR_BACKWARD\<close>) and 1 for \<open>'-'\<close> (\<open>MIRROR_STRAIGHT\<close>): on the first call of a load
  for \<open>N = 2\<close>, cell 0 receives 2 for the byte 92 and 1 for the byte 45.
\<close>

theorem mirrorfield_set_glyph_counterexample:
  "mirrorfield_set 2 92 (mirrorfield_start 2)
     = Inr (1, (mirrorfield_start 2)\<lparr>set_i := 0, grid := [2, 0, 0, 0]\<rparr>)
   \<and> mirrorfield_set 2 92 (mirrorfield_start 2)
     \<noteq> Inr (1, (mirrorfield_start 2)\<lparr>set_i := 0, grid := [1, 0, 0, 0]\<rparr>)
   \<and> mirrorfield_set 2 45 (mirrorfield_start 2)
     = Inr (1, (mirrorfield_start 2)\<lparr>set_i := 0, grid := [1, 0, 0, 0]\<rparr>)
   \<and> mirrorfield_set 2 45 (mirrorfield_start 2)
     \<noteq> Inr (1, (mirrorfield_start 2)\<lparr>set_i := 0, grid := [2, 0, 0, 0]\<rparr>)"
  by (simp add: mirrorfield_set_def mirrorfield_start_def Let_def c_div_def c_mod_def replicate_4 replicate_8)

text \<open>
  The bound on the counter is needed: the call made when the counter holds \<open>INT_MAX\<close>
  increments past the largest \<open>int\<close>, and nothing is stated about it.
\<close>

lemma mirrorfield_set_counter_overflow:
  "mirrorfield_set N ch (st\<lparr>set_i := 2147483647\<rparr>) = Inl Signed_Overflow"
  by (simp add: mirrorfield_set_def)

text \<open>
  A loader that starts from the initial state reaches that call only after \<open>2^31\<close> calls:
  after \<open>k\<close> calls that returned, the counter holds \<open>k - 1\<close>.
\<close>

lemma mirrorfield_set_counter:
  assumes "mirrorfield_set N ch st = Inr (ok, st1)"
  shows "set_i st1 = set_i st + 1 \<and> set_i st < 2147483647"
  using assms
  by (auto simp add: mirrorfield_set_def Let_def split: if_splits)

text \<open>Loading never changes the sizes of the two arrays, and the concrete keys are loaded keys.\<close>

lemma mirrorfield_set_lengths:
  assumes "mirrorfield_set N ch st = Inr (ok, st1)"
  shows "length (grid st1) = length (grid st)
   \<and> length (perimeterChars st1) = length (perimeterChars st)"
  using assms
  by (auto simp add: mirrorfield_set_def Let_def split: if_splits)

lemma load_key_lengths:
  assumes "load_key N K st = Inr (ok, st1)"
  shows "length (grid st1) = length (grid st)
   \<and> length (perimeterChars st1) = length (perimeterChars st)"
  using assms
proof (induction K arbitrary: st)
  case Nil
  then show ?case by simp
next
  case (Cons ch K)
  show ?case
  proof (cases "mirrorfield_set N ch st")
    case (Inl err)
    with Cons.prems show ?thesis by simp
  next
    case (Inr p)
    obtain ok2 st2 where p: "p = (ok2, st2)" by (cases p)
    from Inr p have m: "mirrorfield_set N ch st = Inr (ok2, st2)" by simp
    note l = mirrorfield_set_lengths[OF m]
    show ?thesis
    proof (cases "ok2 = 0")
      case True
      with m Cons.prems have "st1 = st2" by simp
      with l show ?thesis by simp
    next
      case False
      with m Cons.prems have "load_key N K st2 = Inr (ok, st1)" by simp
      from Cons.IH[OF this] l show ?thesis by simp
    qed
  qed
qed

lemma key2_loaded:
  "load_key 2 [47, 32, 92, 45, 65, 66, 67, 68, 69, 70, 71, 72]
     (mirrorfield_init 2 (mirrorfield_start 2)) = Inr (1, key2)"
  by code_simp

lemma key2_empty_loaded:
  "load_key 2 [32, 32, 32, 32, 65, 66, 67, 68, 69, 70, 71, 72]
     (mirrorfield_init 2 (mirrorfield_start 2)) = Inr (1, key2_empty)"
  by code_simp

section \<open>The shuffle of the key generator\<close>

lemma draw_rIndex_result:
  assumes "draw_rIndex rand k str sIndex = Some y"
  shows "fst y \<noteq> sIndex \<and> (str \<noteq> [] \<longrightarrow> 0 \<le> fst y \<and> fst y < int (length str))"
proof (rule draw_rIndex.raw_induct
    [where P = "\<lambda>rand k str sIndex y.
        fst y \<noteq> sIndex \<and> (str \<noteq> [] \<longrightarrow> 0 \<le> fst y \<and> fst y < int (length str))",
     OF _ assms])
  fix draw :: "(nat \<Rightarrow> nat) \<Rightarrow> nat \<Rightarrow> string \<Rightarrow> int \<Rightarrow> (int \<times> nat) option"
    and rand k str sIndex y
  assume IH: "\<And>rand k str sIndex y. draw rand k str sIndex = Some y \<Longrightarrow>
      fst y \<noteq> sIndex \<and> (str \<noteq> [] \<longrightarrow> 0 \<le> fst y \<and> fst y < int (length str))"
    and eq: "(let rIndex = int (rand k mod length str)
              in if rIndex = sIndex then draw rand (k + 1) str sIndex
                 else Some (rIndex, k + 1)) = Some y"
  show "fst y \<noteq> sIndex \<and> (str \<noteq> [] \<longrightarrow> 0 \<le> fst y \<and> fst y < int (length str))"
  proof (cases "int (rand k mod length str) = sIndex")
    case True
    with eq have "draw rand (k + 1) str sIndex = Some y" by (simp add: Let_def)
    then show ?thesis by (rule IH)
  next
    case False
    with eq have "y = (int (rand k mod length str), k + 1)" by (simp add: Let_def)
    with False show ?thesis by simp
  qed
qed

lemma draw_rIndex_total:
  assumes "rand j mod length str \<noteq> nat sIndex" and "k \<le> j" and "0 \<le> sIndex"
  shows "\<exists>y. draw_rIndex rand k str sIndex = Some y"
  using assms
proof (induction "j - k" arbitrary: k)
  case 0
  then have "int (rand k mod length str) \<noteq> sIndex" by auto
  then show ?case by (subst draw_rIndex.simps) (simp add: Let_def)
next
  case (Suc n)
  show ?case
  proof (cases "int (rand k mod length str) = sIndex")
    case False
    then show ?thesis by (subst draw_rIndex.simps) (simp add: Let_def)
  next
    case True
    from Suc have "n = j - (k + 1)" "k + 1 \<le> j" by auto
    from Suc(1)[OF this(1) Suc(3) this(2) Suc(5)] True
    show ?thesis by (subst draw_rIndex.simps) (simp add: Let_def)
  qed
qed

lemma mset_hole_step:
  assumes "r < length xs" and "s < length xs" and "r \<noteq> s"
  shows "mset ((xs[r := c])[s := xs ! r]) = mset (xs[s := c])"
proof -
  let ?ys = "xs[s := c]"
  have "mset (?ys[r := ?ys ! s, s := ?ys ! r]) = mset ?ys"
    using assms by (intro mset_swap) simp_all
  moreover have "?ys[r := ?ys ! s, s := ?ys ! r] = (xs[r := c])[s := xs ! r]"
    using assms by (simp add: list_update_swap[of r s])
  ultimately show ?thesis by simp
qed

lemma shuffle_loop_result:
  assumes "shuffle_loop rand k str p sIndex i c1 = Some y"
  shows "0 \<le> sIndex \<and> sIndex < int (length str) \<longrightarrow>
         mset ((fst y)[nat sIndex := fst (snd y)]) = mset (str[nat sIndex := c1])
         \<and> length (fst y) = length str"
proof (rule shuffle_loop.raw_induct
    [where P = "\<lambda>rand k str p sIndex i c1 y.
        0 \<le> sIndex \<and> sIndex < int (length str) \<longrightarrow>
        mset ((fst y)[nat sIndex := fst (snd y)]) = mset (str[nat sIndex := c1])
        \<and> length (fst y) = length str",
     OF _ assms])
  fix loop :: "(nat \<Rightarrow> nat) \<Rightarrow> nat \<Rightarrow> string \<Rightarrow> int \<Rightarrow> int \<Rightarrow> int \<Rightarrow> char
      \<Rightarrow> (string \<times> char \<times> nat) option"
    and rand k str p sIndex i c1 y
  assume IH: "\<And>rand k str p sIndex i c1 y. loop rand k str p sIndex i c1 = Some y \<Longrightarrow>
      0 \<le> sIndex \<and> sIndex < int (length str) \<longrightarrow>
      mset ((fst y)[nat sIndex := fst (snd y)]) = mset (str[nat sIndex := c1])
      \<and> length (fst y) = length str"
    and eq: "(if i < p then
        (case draw_rIndex rand k str sIndex of
           None \<Rightarrow> None
         | Some (rIndex, k1) \<Rightarrow>
             loop rand k1 (str[nat rIndex := c1]) p sIndex (i + 1) (str ! nat rIndex))
      else Some (str, c1, k)) = Some y"
  show "0 \<le> sIndex \<and> sIndex < int (length str) \<longrightarrow>
      mset ((fst y)[nat sIndex := fst (snd y)]) = mset (str[nat sIndex := c1])
      \<and> length (fst y) = length str"
  proof (cases "i < p")
    case False
    with eq have "y = (str, c1, k)" by simp
    then show ?thesis by simp
  next
    case True
    show ?thesis
    proof
      assume s: "0 \<le> sIndex \<and> sIndex < int (length str)"
      then have ne: "str \<noteq> []" by auto
      from True eq obtain rIndex k1 where
        d: "draw_rIndex rand k str sIndex = Some (rIndex, k1)"
        and l: "loop rand k1 (str[nat rIndex := c1]) p sIndex (i + 1) (str ! nat rIndex) = Some y"
        by (auto split: option.splits)
      from draw_rIndex_result[OF d] ne
      have r: "rIndex \<noteq> sIndex" "0 \<le> rIndex" "rIndex < int (length str)" by simp_all
      from IH[OF l] s
      have "mset ((fst y)[nat sIndex := fst (snd y)])
              = mset ((str[nat rIndex := c1])[nat sIndex := str ! nat rIndex])"
        and len: "length (fst y) = length str" by simp_all
      moreover have "mset ((str[nat rIndex := c1])[nat sIndex := str ! nat rIndex])
              = mset (str[nat sIndex := c1])"
        using r s by (intro mset_hole_step) auto
      ultimately show "mset ((fst y)[nat sIndex := fst (snd y)]) = mset (str[nat sIndex := c1])
          \<and> length (fst y) = length str" by simp
    qed
  qed
qed

lemma shuffle_loop_total:
  assumes "\<forall>j. \<exists>m\<ge>j. rand m mod length str \<noteq> nat sIndex" and "0 \<le> sIndex"
  shows "\<exists>y. shuffle_loop rand k str p sIndex i c1 = Some y"
  using assms
proof (induction "nat (p - i)" arbitrary: k str i c1)
  case 0
  then have "\<not> i < p" by simp
  then show ?case by (subst shuffle_loop.simps) simp
next
  case (Suc n)
  then have lt: "i < p" and n: "n = nat (p - (i + 1))" by auto
  from Suc(3) obtain m where "m \<ge> k" "rand m mod length str \<noteq> nat sIndex" by blast
  with draw_rIndex_total[of rand m str sIndex k] Suc(4)
  obtain rIndex k1 where d: "draw_rIndex rand k str sIndex = Some (rIndex, k1)" by auto
  have "\<forall>j. \<exists>m\<ge>j. rand m mod length (str[nat rIndex := c1]) \<noteq> nat sIndex"
    using Suc(3) by simp
  from Suc(1)[OF n this Suc(4)]
  obtain y where "shuffle_loop rand k1 (str[nat rIndex := c1]) p sIndex (i + 1) (str ! nat rIndex) = Some y"
    by blast
  with lt d have "shuffle_loop rand k str p sIndex i c1 = Some y"
    by (subst shuffle_loop.simps) simp
  then show ?case by blast
qed

text \<open>
  Claim C9. For a non-empty string, any iteration count and any sequence of random draws,
  a string returned by \<open>keyfile_shuffle_string\<close> has the same multiset of characters as
  the input. The procedure does return whenever the draws keep producing an index other
  than the reserved one.
\<close>

theorem shuffle_permutation:
  assumes "str \<noteq> []"
  shows "(\<forall>str1 k1. keyfile_shuffle_string rand k str p = Some (Inr (str1, k1))
            \<longrightarrow> mset str1 = mset str)
       \<and> ((\<forall>j. \<exists>m\<ge>j. rand m mod length str \<noteq> rand k mod length str)
            \<longrightarrow> (\<exists>str1 k1. keyfile_shuffle_string rand k str p = Some (Inr (str1, k1))))"
proof (intro conjI allI impI)
  fix str1 k1
  assume h: "keyfile_shuffle_string rand k str p = Some (Inr (str1, k1))"
  let ?s = "int (rand k mod length str)"
  from assms have s: "0 \<le> ?s" "?s < int (length str)" by simp_all
  from h assms obtain y where
    l: "shuffle_loop rand (k + 1) str p ?s 0 (str ! nat ?s) = Some y"
    and e: "str1 = (fst y)[nat ?s := fst (snd y)]"
    by (auto simp: keyfile_shuffle_string_def Let_def split: option.splits)
  from shuffle_loop_result[OF l] s e have "mset str1 = mset (str[nat ?s := str ! nat ?s])"
    by simp
  then show "mset str1 = mset str" by simp
next
  assume f: "\<forall>j. \<exists>m\<ge>j. rand m mod length str \<noteq> rand k mod length str"
  let ?s = "int (rand k mod length str)"
  from f have "\<forall>j. \<exists>m\<ge>j. rand m mod length str \<noteq> nat ?s" by simp
  from shuffle_loop_total[OF this, of "k + 1" p 0 "str ! nat ?s"]
  obtain y where "shuffle_loop rand (k + 1) str p ?s 0 (str ! nat ?s) = Some y" by auto
  with assms show "\<exists>str1 k1. keyfile_shuffle_string rand k str p = Some (Inr (str1, k1))"
    by (cases y) (simp add: keyfile_shuffle_string_def Let_def)
qed

theorem shuffle_permutation_witness:
  "''hello'' \<noteq> []
   \<and> (\<forall>j. \<exists>m\<ge>j. (m * 7 + 3) mod length ''hello'' \<noteq> (0 * 7 + 3) mod length ''hello'')
   \<and> keyfile_shuffle_string (\<lambda>k. k * 7 + 3) 0 ''hello'' 5 = Some (Inr (''eohll'', 7))
   \<and> mset ''eohll'' = mset ''hello''"
proof -
  have ne: "''hello'' \<noteq> []" by simp
  have fair: "\<forall>j. \<exists>m\<ge>j. (m * 7 + 3) mod length ''hello'' \<noteq> (0 * 7 + 3) mod length ''hello''"
  proof
    fix j :: nat
    show "\<exists>m\<ge>j. (m * 7 + 3) mod length ''hello'' \<noteq> (0 * 7 + 3) mod length ''hello''"
    proof (cases "j mod 5 = 0")
      case False
      then have "(j * 7 + 3) mod 5 \<noteq> 3" by presburger
      then show ?thesis by (intro exI[of _ j]) simp
    next
      case True
      then have "(Suc j * 7 + 3) mod 5 \<noteq> 3" by presburger
      then show ?thesis by (intro exI[of _ "Suc j"]) simp
    qed
  qed
  have ev: "keyfile_shuffle_string (\<lambda>k. k * 7 + 3) 0 ''hello'' 5 = Some (Inr (''eohll'', 7))"
    by code_simp
  from shuffle_permutation[OF ne, of "\<lambda>k. k * 7 + 3" 0 5] ev
  have "mset ''eohll'' = mset ''hello''" by blast
  with ne fair ev show ?thesis by blast
qed

text \<open>
  On a string of one character every draw is the reserved index, so the rejection loop
  never ends once the iteration count is positive.
\<close>

lemma draw_rIndex_single: "draw_rIndex rand k [c] 0 = None"
proof (cases "draw_rIndex rand k [c] 0")
  case (Some y)
  have "\<not> (length [c] = 1 \<and> (0::int) = 0)"
  proof (rule draw_rIndex.raw_induct
      [where P = "\<lambda>rand k str sIndex y. \<not> (length str = 1 \<and> sIndex = 0)", OF _ Some])
    fix draw :: "(nat \<Rightarrow> nat) \<Rightarrow> nat \<Rightarrow> string \<Rightarrow> int \<Rightarrow> (int \<times> nat) option"
      and rand k str sIndex y
    assume IH: "\<And>rand k str sIndex y. draw rand k str sIndex = Some y \<Longrightarrow>
        \<not> (length str = 1 \<and> sIndex = 0)"
      and eq: "(let rIndex = int (rand k mod length str)
                in if rIndex = sIndex then draw rand (k + 1) str sIndex
                   else Some (rIndex, k + 1)) = Some y"
    show "\<not> (length str = 1 \<and> sIndex = 0)"
    proof
      assume h: "length str = 1 \<and> sIndex = 0"
      with eq have "draw rand (k + 1) str sIndex = Some y" by (simp add: Let_def)
      from IH[OF this] h show False by simp
    qed
  qed
  then show ?thesis by simp
qed simp

lemma shuffle_single_char_never_returns:
  assumes "0 < p"
  shows "keyfile_shuffle_string rand k [c] p = None"
proof -
  have "shuffle_loop rand (k + 1) [c] p 0 0 c = None"
    using assms by (subst shuffle_loop.simps) (simp add: draw_rIndex_single)
  then show ?thesis by (simp add: keyfile_shuffle_string_def Let_def)
qed

section \<open>The roll procedure\<close>

text \<open>Both collision loops of the code are the loop of the specification.\<close>

lemma avoid_of_start_loop:
  assumes "roll_start_loop N s e l1 l2 x = Some y"
  shows "0 < N \<and> 0 \<le> x \<longrightarrow> spec_avoid N {s, e, l1, l2} x = Some y"
proof (rule roll_start_loop.raw_induct
    [where P = "\<lambda>N s e l1 l2 x y. 0 < N \<and> 0 \<le> x \<longrightarrow> spec_avoid N {s, e, l1, l2} x = Some y",
     OF _ assms])
  fix loop :: "int \<Rightarrow> int \<Rightarrow> int \<Rightarrow> int \<Rightarrow> int \<Rightarrow> int \<Rightarrow> int option" and N s e l1 l2 x y
  assume IH: "\<And>N s e l1 l2 x y. loop N s e l1 l2 x = Some y \<Longrightarrow>
      0 < N \<and> 0 \<le> x \<longrightarrow> spec_avoid N {s, e, l1, l2} x = Some y"
    and eq: "(if x = s \<or> x = e \<or> x = l1 \<or> x = l2
              then loop N s e l1 l2 (c_mod (x + c_div N 2) (N * 4))
              else Some x) = Some y"
  show "0 < N \<and> 0 \<le> x \<longrightarrow> spec_avoid N {s, e, l1, l2} x = Some y"
  proof
    assume h: "0 < N \<and> 0 \<le> x"
    then have step: "c_mod (x + c_div N 2) (N * 4) = (x + N div 2) mod (4 * N)"
      by (simp add: c_mod_nonneg c_div_nonneg mult.commute)
    show "spec_avoid N {s, e, l1, l2} x = Some y"
    proof (cases "x \<in> {s, e, l1, l2}")
      case False
      with eq show ?thesis by (subst spec_avoid.simps) auto
    next
      case True
      with eq have "loop N s e l1 l2 ((x + N div 2) mod (4 * N)) = Some y"
        by (auto simp: step)
      from IH[OF this] h have "spec_avoid N {s, e, l1, l2} ((x + N div 2) mod (4 * N)) = Some y"
        by simp
      with True show ?thesis by (subst spec_avoid.simps) simp
    qed
  qed
qed

lemma avoid_of_end_loop:
  assumes "roll_end_loop N s e l1 l2 x = Some y"
  shows "0 < N \<and> 0 \<le> x \<longrightarrow> spec_avoid N {e, s, l2, l1} x = Some y"
proof (rule roll_end_loop.raw_induct
    [where P = "\<lambda>N s e l1 l2 x y. 0 < N \<and> 0 \<le> x \<longrightarrow> spec_avoid N {e, s, l2, l1} x = Some y",
     OF _ assms])
  fix loop :: "int \<Rightarrow> int \<Rightarrow> int \<Rightarrow> int \<Rightarrow> int \<Rightarrow> int \<Rightarrow> int option" and N s e l1 l2 x y
  assume IH: "\<And>N s e l1 l2 x y. loop N s e l1 l2 x = Some y \<Longrightarrow>
      0 < N \<and> 0 \<le> x \<longrightarrow> spec_avoid N {e, s, l2, l1} x = Some y"
    and eq: "(if x = e \<or> x = s \<or> x = l2 \<or> x = l1
              then loop N s e l1 l2 (c_mod (x + c_div N 2) (N * 4))
              else Some x) = Some y"
  show "0 < N \<and> 0 \<le> x \<longrightarrow> spec_avoid N {e, s, l2, l1} x = Some y"
  proof
    assume h: "0 < N \<and> 0 \<le> x"
    then have step: "c_mod (x + c_div N 2) (N * 4) = (x + N div 2) mod (4 * N)"
      by (simp add: c_mod_nonneg c_div_nonneg mult.commute)
    show "spec_avoid N {e, s, l2, l1} x = Some y"
    proof (cases "x \<in> {e, s, l2, l1}")
      case False
      with eq show ?thesis by (subst spec_avoid.simps) auto
    next
      case True
      with eq have "loop N s e l1 l2 ((x + N div 2) mod (4 * N)) = Some y"
        by (auto simp: step)
      from IH[OF this] h have "spec_avoid N {e, s, l2, l1} ((x + N div 2) mod (4 * N)) = Some y"
        by simp
      with True show ?thesis by (subst spec_avoid.simps) simp
    qed
  qed
qed

lemma loops_of_avoid:
  assumes "spec_avoid N F x = Some y"
  shows "0 < N \<and> 0 \<le> x \<longrightarrow>
     (\<forall>s e l1 l2. F = {s, e, l1, l2} \<longrightarrow>
        roll_start_loop N s e l1 l2 x = Some y \<and> roll_end_loop N e s l2 l1 x = Some y)"
proof (rule spec_avoid.raw_induct
    [where P = "\<lambda>N F x y. 0 < N \<and> 0 \<le> x \<longrightarrow>
     (\<forall>s e l1 l2. F = {s, e, l1, l2} \<longrightarrow>
        roll_start_loop N s e l1 l2 x = Some y \<and> roll_end_loop N e s l2 l1 x = Some y)",
     OF _ assms])
  fix avoid :: "int \<Rightarrow> int set \<Rightarrow> int \<Rightarrow> int option" and N F x y
  assume IH: "\<And>N F x y. avoid N F x = Some y \<Longrightarrow> 0 < N \<and> 0 \<le> x \<longrightarrow>
     (\<forall>s e l1 l2. F = {s, e, l1, l2} \<longrightarrow>
        roll_start_loop N s e l1 l2 x = Some y \<and> roll_end_loop N e s l2 l1 x = Some y)"
    and eq: "(if x \<in> F then avoid N F ((x + N div 2) mod (4 * N)) else Some x) = Some y"
  show "0 < N \<and> 0 \<le> x \<longrightarrow>
     (\<forall>s e l1 l2. F = {s, e, l1, l2} \<longrightarrow>
        roll_start_loop N s e l1 l2 x = Some y \<and> roll_end_loop N e s l2 l1 x = Some y)"
  proof (intro impI allI)
    fix s e l1 l2
    assume h: "0 < N \<and> 0 \<le> x" and F: "F = {s, e, l1, l2}"
    then have step: "c_mod (x + c_div N 2) (N * 4) = (x + N div 2) mod (4 * N)"
      by (simp add: c_mod_nonneg c_div_nonneg mult.commute)
    show "roll_start_loop N s e l1 l2 x = Some y \<and> roll_end_loop N e s l2 l1 x = Some y"
    proof (cases "x \<in> F")
      case False
      with eq F show ?thesis
        by (subst roll_start_loop.simps, subst roll_end_loop.simps) auto
    next
      case True
      with eq have "avoid N F ((x + N div 2) mod (4 * N)) = Some y" by simp
      from IH[OF this] h F
      have "roll_start_loop N s e l1 l2 ((x + N div 2) mod (4 * N)) = Some y"
        and "roll_end_loop N e s l2 l1 ((x + N div 2) mod (4 * N)) = Some y"
        by simp_all
      with True F show ?thesis
        by (subst roll_start_loop.simps, subst roll_end_loop.simps) (auto simp: step)
    qed
  qed
qed

lemma roll_start_loop_avoid:
  assumes "0 < N" and "0 \<le> x"
  shows "roll_start_loop N s e l1 l2 x = spec_avoid N {s, e, l1, l2} x"
proof (cases "roll_start_loop N s e l1 l2 x")
  case (Some y)
  with avoid_of_start_loop[OF Some] assms show ?thesis by simp
next
  case None
  show ?thesis
  proof (cases "spec_avoid N {s, e, l1, l2} x")
    case (Some y)
    from loops_of_avoid[OF Some] assms have "roll_start_loop N s e l1 l2 x = Some y" by blast
    with None show ?thesis by simp
  qed (simp add: None)
qed

lemma roll_end_loop_avoid:
  assumes "0 < N" and "0 \<le> x"
  shows "roll_end_loop N s e l1 l2 x = spec_avoid N {e, s, l2, l1} x"
proof (cases "roll_end_loop N s e l1 l2 x")
  case (Some y)
  with avoid_of_end_loop[OF Some] assms show ?thesis by simp
next
  case None
  show ?thesis
  proof (cases "spec_avoid N {e, s, l2, l1} x")
    case (Some y)
    from loops_of_avoid[OF Some] assms have "roll_end_loop N s e l1 l2 x = Some y" by blast
    with None show ?thesis by simp
  qed (simp add: None)
qed

lemma roll_pos_eq:
  assumes "0 < N" and "0 \<le> s"
  shows "roll_pos N p s = (s + uint (p ! nat s) + uint (p ! nat (neigh s))) mod (4 * N)"
  using assms by (simp add: roll_pos_def neigh_def c_mod_nonneg mult.commute)

lemma roll_pos_range:
  assumes "0 < N" and "0 \<le> s"
  shows "0 \<le> roll_pos N p s \<and> roll_pos N p s < 4 * N"
  using assms by (simp add: roll_pos_eq)

lemma swap_chars_spec: "swap_chars a b p = spec_swap p a b"
  by (simp add: swap_chars_def spec_swap_def Let_def)

lemma roll_chars_unfold:
  assumes "0 < N" and "0 \<le> s" and "0 \<le> e"
  shows "mirrorfield_roll_chars N s e st =
     (case spec_avoid N {s, e, lastStartCharPos st, lastEndCharPos st}
             (roll_pos N (perimeterChars st) s) of
        None \<Rightarrow> None
      | Some rs \<Rightarrow>
        (case spec_avoid N {s, e, lastStartCharPos st, lastEndCharPos st}
                (roll_pos N (perimeterChars st) e) of
           None \<Rightarrow> None
         | Some re \<Rightarrow>
             Some (st\<lparr>perimeterChars :=
                         (if uint (perimeterChars st ! nat s) > uint (perimeterChars st ! nat e)
                          then spec_swap (spec_swap (perimeterChars st) s rs) e re
                          else spec_swap (spec_swap (perimeterChars st) e re) s rs),
                      lastStartCharPos := s, lastEndCharPos := e\<rparr>)))"
proof -
  have set_eq: "{e, s, lastEndCharPos st, lastStartCharPos st}
      = {s, e, lastStartCharPos st, lastEndCharPos st}" by auto
  show ?thesis
    using assms
    by (simp add: mirrorfield_roll_chars_def Let_def roll_start_loop_avoid roll_end_loop_avoid
        roll_pos_range swap_chars_spec set_eq cong: option.case_cong if_cong)
qed

text \<open>
  Claim C6. For slots \<open>s\<close> and \<open>e\<close> of the perimeter, \<open>mirrorfield_roll_chars\<close> is the
  roll procedure of the specification: the two rolled positions from the neighbour
  helper, the two collision loops that add \<open>N / 2\<close> modulo \<open>4 * N\<close>, the two swaps in
  the order fixed by comparing \<open>perim[s]\<close> and \<open>perim[e]\<close>, and the update of the two
  remembered positions. The two sides agree also on whether they return at all.
\<close>

theorem roll_chars_refines_spec:
  assumes "0 < N" and "length (perimeterChars st) = nat (N * 4)"
    and "0 \<le> s" and "s < N * 4" and "0 \<le> e" and "e < N * 4"
  shows "mirrorfield_roll_chars N s e st = spec_roll N s e st"
proof -
  have set_eq: "{e, s, lastEndCharPos st, lastStartCharPos st}
      = {s, e, lastStartCharPos st, lastEndCharPos st}" by auto
  show ?thesis
    using assms(1,3,5)
    by (simp add: roll_chars_unfold spec_roll_def Let_def roll_pos_eq set_eq
        cong: option.case_cong)
qed

theorem roll_chars_refines_spec_witness:
  "(0::int) < 2 \<and> length (perimeterChars key2) = nat (2 * 4)
   \<and> (0::int) \<le> 0 \<and> (0::int) < 2 * 4 \<and> (0::int) \<le> 4 \<and> (4::int) < 2 * 4
   \<and> mirrorfield_roll_chars 2 0 4 key2 = spec_roll 2 0 4 key2
   \<and> spec_roll 2 0 4 key2
       = Some (key2\<lparr>perimeterChars := [68, 66, 67, 65, 70, 69, 71, 72],
                     lastStartCharPos := 0, lastEndCharPos := 4\<rparr>)"
proof -
  have l: "length (perimeterChars key2) = nat (2 * 4)" by (simp add: key2_def)
  have ev: "spec_roll 2 0 4 key2
       = Some (key2\<lparr>perimeterChars := [68, 66, 67, 65, 70, 69, 71, 72],
                     lastStartCharPos := 0, lastEndCharPos := 4\<rparr>)"
    by code_simp
  from roll_chars_refines_spec[of 2 key2 0 4] l ev show ?thesis by simp
qed

text \<open>The collision loop returns, on a slot that is not forbidden, once \<open>N\<close> is at least 2.\<close>

lemma avoid_result:
  assumes "spec_avoid N F x = Some y"
  shows "0 < N \<and> 0 \<le> x \<and> x < 4 * N \<longrightarrow> y \<notin> F \<and> 0 \<le> y \<and> y < 4 * N"
proof (rule spec_avoid.raw_induct
    [where P = "\<lambda>N F x y. 0 < N \<and> 0 \<le> x \<and> x < 4 * N \<longrightarrow> y \<notin> F \<and> 0 \<le> y \<and> y < 4 * N",
     OF _ assms])
  fix avoid :: "int \<Rightarrow> int set \<Rightarrow> int \<Rightarrow> int option" and N F x y
  assume IH: "\<And>N F x y. avoid N F x = Some y \<Longrightarrow>
      0 < N \<and> 0 \<le> x \<and> x < 4 * N \<longrightarrow> y \<notin> F \<and> 0 \<le> y \<and> y < 4 * N"
    and eq: "(if x \<in> F then avoid N F ((x + N div 2) mod (4 * N)) else Some x) = Some y"
  show "0 < N \<and> 0 \<le> x \<and> x < 4 * N \<longrightarrow> y \<notin> F \<and> 0 \<le> y \<and> y < 4 * N"
  proof
    assume h: "0 < N \<and> 0 \<le> x \<and> x < 4 * N"
    show "y \<notin> F \<and> 0 \<le> y \<and> y < 4 * N"
    proof (cases "x \<in> F")
      case False
      with eq h show ?thesis by simp
    next
      case True
      with eq have "avoid N F ((x + N div 2) mod (4 * N)) = Some y" by simp
      from IH[OF this] h show ?thesis by simp
    qed
  qed
qed

lemma avoid_reaches:
  assumes "0 < N" and "(x + int j * (N div 2)) mod (4 * N) \<notin> F" and "0 \<le> x" and "x < 4 * N"
  shows "\<exists>y. spec_avoid N F x = Some y"
  using assms
proof (induction j arbitrary: x)
  case 0
  then have "x \<notin> F" by simp
  then show ?case by (subst spec_avoid.simps) simp
next
  case (Suc j)
  show ?case
  proof (cases "x \<in> F")
    case False
    then show ?thesis by (subst spec_avoid.simps) simp
  next
    case True
    let ?x = "(x + N div 2) mod (4 * N)"
    have "(?x + int j * (N div 2)) mod (4 * N) = (x + N div 2 + int j * (N div 2)) mod (4 * N)"
      by (rule mod_add_left_eq)
    also have "x + N div 2 + int j * (N div 2) = x + int (Suc j) * (N div 2)"
      by (simp add: algebra_simps)
    finally have "(?x + int j * (N div 2)) mod (4 * N) \<notin> F" using Suc.prems(2) by simp
    moreover have "0 \<le> ?x" "?x < 4 * N" using Suc.prems(1) by simp_all
    ultimately have "\<exists>y. spec_avoid N F ?x = Some y" using Suc.IH Suc.prems(1) by blast
    with True show ?thesis by (subst spec_avoid.simps) simp
  qed
qed

lemma steps_distinct:
  assumes "2 \<le> N" and "i < j" and "j \<le> 4"
  shows "(x + int i * (N div 2)) mod (4 * N) \<noteq> (x + int j * (N div 2)) mod (4 * N)"
proof
  assume "(x + int i * (N div 2)) mod (4 * N) = (x + int j * (N div 2)) mod (4 * N)"
  then have "(x + int j * (N div 2)) mod (4 * N) = (x + int i * (N div 2)) mod (4 * N)" by simp
  then have "4 * N dvd (x + int j * (N div 2)) - (x + int i * (N div 2))"
    by (simp only: mod_eq_dvd_iff)
  moreover have "(x + int j * (N div 2)) - (x + int i * (N div 2)) = int (j - i) * (N div 2)"
    using assms(2) by (simp add: algebra_simps of_nat_diff)
  ultimately have d: "4 * N dvd int (j - i) * (N div 2)" by simp
  have h: "1 \<le> N div 2" "2 * (N div 2) \<le> N" using assms(1) by auto
  have k: "1 \<le> int (j - i)" "int (j - i) \<le> 4" using assms(2,3) by auto
  have pos: "0 < int (j - i) * (N div 2)" using h k by (intro mult_pos_pos) auto
  have "int (j - i) * (N div 2) \<le> 4 * (N div 2)"
    using k h by (intro mult_right_mono) auto
  then have le: "int (j - i) * (N div 2) \<le> 2 * N" using h by linarith
  from zdvd_imp_le[OF d pos] le assms(1) show False by linarith
qed

lemma free_step_exists:
  assumes "2 \<le> N" and "finite F" and "card F \<le> 4"
  shows "\<exists>j. (x + int j * (N div 2)) mod (4 * N) \<notin> F"
proof (rule ccontr)
  assume "\<not> ?thesis"
  then have all: "\<And>j. (x + int j * (N div 2)) mod (4 * N) \<in> F" by blast
  let ?f = "\<lambda>j. (x + int j * (N div 2)) mod (4 * N)"
  have inj: "inj_on ?f {0..4}"
  proof (rule inj_onI)
    fix a b assume ab: "a \<in> {0..4::nat}" "b \<in> {0..4::nat}" "?f a = ?f b"
    show "a = b"
    proof (rule ccontr)
      assume "a \<noteq> b"
      then consider "a < b" | "b < a" by linarith
      then show False
      proof cases
        case 1
        with steps_distinct[OF assms(1) 1, of x] ab show False by simp
      next
        case 2
        with steps_distinct[OF assms(1) 2, of x] ab show False by simp
      qed
    qed
  qed
  have "?f ` {0..4} \<subseteq> F" using all by blast
  then have "card (?f ` {0..4}) \<le> card F" using assms(2) by (rule card_mono[rotated])
  moreover have "card (?f ` {0..4}) = 5" using inj by (simp add: card_image)
  ultimately show False using assms(3) by simp
qed

lemma card_four: "card {a, b, c, d :: int} \<le> 4"
  by (simp add: card_insert_if)

lemma avoid_total:
  assumes "2 \<le> N" and "0 \<le> x" and "x < 4 * N"
  shows "\<exists>y. spec_avoid N {a, b, c, d} x = Some y \<and> y \<notin> {a, b, c, d} \<and> 0 \<le> y \<and> y < 4 * N"
proof -
  from free_step_exists[OF assms(1) _ card_four, of a b c d x]
  obtain j where "(x + int j * (N div 2)) mod (4 * N) \<notin> {a, b, c, d}" by auto
  from avoid_reaches[OF _ this assms(2,3)] assms(1)
  obtain y where y: "spec_avoid N {a, b, c, d} x = Some y" by auto
  from avoid_result[OF y] assms show ?thesis using y by auto
qed

lemma spec_swap_length: "length (spec_swap p a b) = length p"
  by (simp add: spec_swap_def)

lemma spec_swap_mset:
  assumes "0 \<le> a" and "a < int (length p)" and "0 \<le> b" and "b < int (length p)"
  shows "mset (spec_swap p a b) = mset p"
  unfolding spec_swap_def using assms by (intro mset_swap) auto

text \<open>What a roll changes, and when it returns.\<close>

lemma uint_neq: "(a::8 word) \<noteq> b \<Longrightarrow> uint a \<noteq> uint b"
  by (simp add: word_uint_eq_iff)

lemma roll_chars_total:
  assumes "2 \<le> N" and "0 \<le> s" and "s < 4 * N" and "0 \<le> e" and "e < 4 * N"
  shows "\<exists>st1. mirrorfield_roll_chars N s e st = Some st1"
proof -
  let ?F = "{s, e, lastStartCharPos st, lastEndCharPos st}"
  have N: "0 < N" using assms(1) by simp
  from roll_pos_range[OF N assms(2), of "perimeterChars st"]
  have "\<exists>y. spec_avoid N ?F (roll_pos N (perimeterChars st) s) = Some y"
    using avoid_total[OF assms(1), of "roll_pos N (perimeterChars st) s"] by blast
  then obtain rs where rs: "spec_avoid N ?F (roll_pos N (perimeterChars st) s) = Some rs" ..
  from roll_pos_range[OF N assms(4), of "perimeterChars st"]
  have "\<exists>y. spec_avoid N ?F (roll_pos N (perimeterChars st) e) = Some y"
    using avoid_total[OF assms(1), of "roll_pos N (perimeterChars st) e"] by blast
  then obtain re where re: "spec_avoid N ?F (roll_pos N (perimeterChars st) e) = Some re" ..
  show ?thesis
    by (simp add: roll_chars_unfold[OF N assms(2,4)] rs re)
qed

lemma roll_chars_result:
  assumes r: "mirrorfield_roll_chars N s e st = Some st1"
    and N: "0 < N" and len: "length (perimeterChars st) = nat (N * 4)"
    and s: "0 \<le> s" "s < 4 * N" and e: "0 \<le> e" "e < 4 * N"
  shows "mset (perimeterChars st1) = mset (perimeterChars st)
       \<and> length (perimeterChars st1) = length (perimeterChars st)
       \<and> grid st1 = grid st \<and> evenodd st1 = evenodd st \<and> set_i st1 = set_i st
       \<and> lastStartCharPos st1 = s \<and> lastEndCharPos st1 = e"
proof -
  let ?F = "{s, e, lastStartCharPos st, lastEndCharPos st}"
  let ?p = "perimeterChars st"
  from r obtain rs re where
    rs: "spec_avoid N ?F (roll_pos N ?p s) = Some rs"
    and re: "spec_avoid N ?F (roll_pos N ?p e) = Some re"
    and st1: "st1 = st\<lparr>perimeterChars :=
                         (if uint (?p ! nat s) > uint (?p ! nat e)
                          then spec_swap (spec_swap ?p s rs) e re
                          else spec_swap (spec_swap ?p e re) s rs),
                      lastStartCharPos := s, lastEndCharPos := e\<rparr>"
    by (auto simp: roll_chars_unfold[OF N s(1) e(1)] split: option.splits)
  from avoid_result[OF rs] roll_pos_range[OF N s(1), of ?p] N
  have rsr: "0 \<le> rs" "rs < 4 * N" by simp_all
  from avoid_result[OF re] roll_pos_range[OF N e(1), of ?p] N
  have rer: "0 \<le> re" "re < 4 * N" by simp_all
  have L: "int (length ?p) = 4 * N" using len N by simp
  have m1: "mset (spec_swap (spec_swap ?p s rs) e re) = mset ?p"
    using s e rsr rer L by (simp add: spec_swap_mset spec_swap_length)
  have m2: "mset (spec_swap (spec_swap ?p e re) s rs) = mset ?p"
    using s e rsr rer L by (simp add: spec_swap_mset spec_swap_length)
  show ?thesis using m1 m2 by (simp add: st1 spec_swap_length)
qed

lemma twin_sym: "twin a b \<Longrightarrow> twin b a"
  by (auto simp: twin_def)



section \<open>The ray on a fixed grid: injective steps\<close>

lemma reflect_reflect: "reflect g (reflect g d) = d"
  by (cases d) (simp_all add: reflect_def)

lemma opp_opp: "opp (opp d) = d"
  by (cases d) simp_all


lemma reflect_inj: "reflect g d = reflect g d' \<Longrightarrow> d = d'"
  by (metis reflect_reflect)

lemma cell_bound:
  assumes "inside N (r, c, d)"
  shows "0 \<le> r * N + c \<and> r * N + c < N * N"
proof -
  from assms have h: "0 \<le> r" "r \<le> N - 1" "0 \<le> c" "c < N" "0 < N"
    by (auto simp: inside_def)
  have "0 \<le> r * N" using h by simp
  moreover have "r * N \<le> (N - 1) * N" using h by (intro mult_right_mono) auto
  moreover have "(N - 1) * N = N * N - N" by (simp add: algebra_simps)
  ultimately show ?thesis using h by linarith
qed

lemma cell_less:
  assumes "inside N x" and "length g = nat (N * N)"
  shows "cell N x < length g"
proof -
  obtain r c d where x: "x = (r, c, d)" by (cases x)
  from cell_bound[of N r c d] assms show ?thesis by (auto simp: x cell_def)
qed

lemma ray_step_inside:
  assumes "ray_step N g x = Inl y" and "inside N x"
  shows "inside N y"
proof -
  obtain r c d where x: "x = (r, c, d)" by (cases x)
  from assms show ?thesis
    by (cases "reflect (g ! nat (r * N + c)) d")
      (auto simp: x ray_step_def inside_def split: if_splits)
qed

lemma ray_step_cases:
  assumes "ray_step N g (r, c, d) = Inl y"
  shows "snd (snd y) = reflect (g ! nat (r * N + c)) d \<and> behind y = (r, c)"
  using assms
  by (cases "reflect (g ! nat (r * N + c)) d") (auto simp: ray_step_def split: if_splits)

lemma ray_step_inj:
  assumes "ray_step N g x = Inl z" and "ray_step N g y = Inl z"
  shows "x = y"
proof -
  obtain r c d where x: "x = (r, c, d)" by (cases x)
  obtain r' c' d' where y: "y = (r', c', d')" by (cases y)
  from assms(1) have sx: "ray_step N g (r, c, d) = Inl z" by (simp only: x)
  from assms(2) have sy: "ray_step N g (r', c', d') = Inl z" by (simp only: y)
  note a = ray_step_cases[OF sx] and b = ray_step_cases[OF sy]
  from a b have rc: "(r, c) = (r', c')" by (simp only:)
  from a b have "reflect (g ! nat (r * N + c)) d = reflect (g ! nat (r' * N + c')) d'"
    by (simp only:)
  with rc have "d = d'" by (auto dest: reflect_inj)
  with rc show ?thesis by (simp add: x y)
qed

lemma entry_inside:
  assumes "entry N s = Some x" and "0 \<le> s"
  shows "inside N x"
  using assms by (auto simp: entry_def inside_def split: if_splits)

lemma entry_Some:
  assumes "0 \<le> s" and "s < N * 4"
  shows "\<exists>x. entry N s = Some x"
  using assms by (auto simp: entry_def)

lemma entry_no_pred:
  assumes "entry N s = Some x" and "0 \<le> s" and "inside N y"
  shows "ray_step N g y \<noteq> Inl x"
proof
  assume st: "ray_step N g y = Inl x"
  obtain r c d where y: "y = (r, c, d)" by (cases y)
  from st have "ray_step N g (r, c, d) = Inl x" by (simp only: y)
  from ray_step_cases[OF this] have b: "behind x = (r, c)" by (simp only:)
  from assms(3) have i: "0 \<le> r" "r < N" "0 \<le> c" "c < N" by (simp_all add: y inside_def)
  from assms(1,2) b i show False
    by (auto simp: entry_def split: if_splits)
qed

section \<open>The ray leaves the grid\<close>

text \<open>
  A ray that entered from the perimeter never returns to a state it was in: steps are
  injective and the entry state has no predecessor. The grid has finitely many states,
  so the ray leaves.
\<close>

lemma ray_iter_Suc_right:
  "ray_iter N g (Suc k) x = (case ray_iter N g k x of Inl y \<Rightarrow> ray_step N g y | Inr e \<Rightarrow> Inr e)"
proof (induction k arbitrary: x)
  case 0
  show ?case by (simp split: sum.splits)
next
  case (Suc k)
  show ?case
  proof (cases "ray_step N g x")
    case (Inl y)
    have "ray_iter N g (Suc (Suc k)) x = ray_iter N g (Suc k) y" using Inl by simp
    also have "\<dots> = (case ray_iter N g k y of Inl y \<Rightarrow> ray_step N g y | Inr e \<Rightarrow> Inr e)"
      by (rule Suc.IH)
    also have "ray_iter N g k y = ray_iter N g (Suc k) x" using Inl by simp
    finally show ?thesis .
  next
    case (Inr e)
    then show ?thesis by simp
  qed
qed

lemma ray_iter_inside:
  assumes "ray_iter N g k x = Inl y" and "inside N x"
  shows "inside N y"
  using assms
proof (induction k arbitrary: x)
  case 0
  then show ?case by simp
next
  case (Suc k)
  from Suc.prems(1) obtain z where z: "ray_step N g x = Inl z" and k: "ray_iter N g k z = Inl y"
    by (auto split: sum.splits)
  from ray_step_inside[OF z Suc.prems(2)] Suc.IH[OF k] show ?case by simp
qed

lemma ray_iter_pred:
  assumes "ray_iter N g (Suc k) x = Inl z"
  obtains a where "ray_iter N g k x = Inl a" and "ray_step N g a = Inl z"
  using assms by (auto simp: ray_iter_Suc_right simp del: ray_iter.simps split: sum.splits)

lemma ray_iter_no_return:
  assumes en: "entry N s = Some x" and s: "0 \<le> s"
    and "ray_iter N g i x = Inl z" and "ray_iter N g (i + m) x = Inl z"
  shows "m = 0"
  using assms(3,4)
proof (induction i arbitrary: z)
  case 0
  then have z: "z = x" by simp
  show ?case
  proof (cases m)
    case (Suc m')
    with 0(2) z have "ray_iter N g (Suc m') x = Inl x" by simp
    then obtain a where a: "ray_iter N g m' x = Inl a" and st: "ray_step N g a = Inl x"
      by (rule ray_iter_pred)
    from ray_iter_inside[OF a entry_inside[OF en s]] have "inside N a" .
    from entry_no_pred[OF en s this, of g] st show ?thesis by simp
  qed simp
next
  case (Suc i)
  from Suc.prems(1) obtain a where a: "ray_iter N g i x = Inl a" and sa: "ray_step N g a = Inl z"
    by (rule ray_iter_pred)
  from Suc.prems(2) have "ray_iter N g (Suc (i + m)) x = Inl z" by simp
  then obtain b where b: "ray_iter N g (i + m) x = Inl b" and sb: "ray_step N g b = Inl z"
    by (rule ray_iter_pred)
  from ray_step_inj[OF sa sb] have "a = b" .
  with a b Suc.IH show ?case by simp
qed

lemma direction_UNIV: "(UNIV :: direction set) = {DIR_DOWN, DIR_LEFT, DIR_RIGHT, DIR_UP}"
proof -
  have "\<And>d. d \<in> {DIR_DOWN, DIR_LEFT, DIR_RIGHT, DIR_UP}"
  proof -
    fix d show "d \<in> {DIR_DOWN, DIR_LEFT, DIR_RIGHT, DIR_UP}" by (cases d) simp_all
  qed
  then show ?thesis by blast
qed

lemma finite_inside: "finite {x. inside N x}"
proof -
  have "{x. inside N x} \<subseteq> {0..<N} \<times> {0..<N} \<times> (UNIV :: direction set)"
    by (auto simp: inside_def)
  moreover have "finite ({0..<N} \<times> {0..<N} \<times> (UNIV :: direction set))"
    by (simp add: direction_UNIV)
  ultimately show ?thesis by (rule finite_subset)
qed

lemma ray_leaves:
  assumes en: "entry N s = Some x" and s: "0 \<le> s"
  shows "\<exists>k e. ray_iter N g k x = Inr e"
proof (rule ccontr)
  assume "\<not> ?thesis"
  then have all: "\<And>k. \<exists>y. ray_iter N g k x = Inl y"
    by (metis sum.exhaust)
  have ins: "\<And>k. ray_iter N g k x \<in> Inl ` {x. inside N x}"
  proof -
    fix k
    from all[of k] obtain y where y: "ray_iter N g k x = Inl y" ..
    from ray_iter_inside[OF y entry_inside[OF en s]] y
    show "ray_iter N g k x \<in> Inl ` {x. inside N x}" by simp
  qed
  have inj: "inj (\<lambda>k. ray_iter N g k x)"
  proof (rule injI)
    fix i j assume eq: "ray_iter N g i x = ray_iter N g j x"
    from all[of i] obtain z where z: "ray_iter N g i x = Inl z" ..
    show "i = j"
    proof (cases "i \<le> j")
      case True
      then obtain m where m: "j = i + m" by (auto simp: le_iff_add)
      from eq z m have "ray_iter N g (i + m) x = Inl z" by simp
      from ray_iter_no_return[OF en s z this] m show ?thesis by simp
    next
      case False
      then obtain m where m: "i = j + m" by (metis le_iff_add nat_le_linear)
      from eq z have zj: "ray_iter N g j x = Inl z" by simp
      from z m have "ray_iter N g (j + m) x = Inl z" by simp
      from ray_iter_no_return[OF en s zj this] m show ?thesis by simp
    qed
  qed
  have "range (\<lambda>k. ray_iter N g k x) \<subseteq> Inl ` {x. inside N x}" using ins by blast
  then have "finite (range (\<lambda>k. ray_iter N g k x))"
    by (rule finite_subset) (simp add: finite_inside)
  from finite_imageD[OF this inj] show False by simp
qed

lemma run_of_iter:
  assumes "ray_iter N g k x = Inr e"
  shows "\<exists>S. run N g x S e"
  using assms
proof (induction k arbitrary: x)
  case 0
  then show ?case by simp
next
  case (Suc k)
  show ?case
  proof (cases "ray_step N g x")
    case (Inr e')
    with Suc.prems have "e' = e" by simp
    with Inr show ?thesis by (auto intro: run_exit)
  next
    case (Inl y)
    with Suc.prems have "ray_iter N g k y = Inr e" by simp
    from Suc.IH[OF this] obtain S where "run N g y S e" ..
    with Inl show ?thesis by (auto intro: run_step)
  qed
qed

lemma run_exists:
  assumes "entry N s = Some x" and "0 \<le> s"
  shows "\<exists>S e. run N g x S e"
  using ray_leaves[OF assms, of g] run_of_iter by blast


lemma ray_step_exit_range:
  assumes "ray_step N g x = Inr e" and "inside N x"
  shows "0 \<le> e \<and> e < N * 4"
proof -
  obtain r c d where x: "x = (r, c, d)" by (cases x)
  from assms show ?thesis
    by (cases "reflect (g ! nat (r * N + c)) d")
      (auto simp: x ray_step_def inside_def split: if_splits)
qed

lemma run_exit_range:
  assumes "run N g x S e" and "inside N x"
  shows "0 \<le> e \<and> e < N * 4"
  using assms
proof (induction rule: run.induct)
  case (run_exit x e)
  then show ?case by (rule ray_step_exit_range)
next
  case (run_step x y S e)
  from ray_step_inside[OF run_step.hyps(1) run_step.prems] run_step.IH show ?case by simp
qed

section \<open>The reversed ray\<close>


lemma inside_flip: "inside N (flip N g x) = inside N x"
  by (cases x) (simp add: inside_def flip_def)






section \<open>The traversal loop follows the ray of the fixed grid\<close>

lemma length_spun [simp]: "length (spun g V) = length g"
  by (simp add: spun_def)

lemma length_seen [simp]: "length (seen g V) = length g"
  by (simp add: seen_def)

lemma spun_nth:
  "t < length g \<Longrightarrow> spun g V ! t = (if t \<in> V \<and> g ! t \<noteq> 3 then (g ! t + 1) mod 3 else g ! t)"
  by (simp add: spun_def)

lemma seen_nth:
  "t < length g \<Longrightarrow> seen g V ! t = (if t \<in> V \<and> g ! t \<noteq> 3 then 1 else 0)"
  by (simp add: seen_def)

lemma spun_empty: "spun g {} = g"
  by (rule nth_equalityI) (simp_all add: spun_nth)

lemma seen_empty: "seen g {} = replicate (length g) 0"
  by (rule nth_equalityI) (simp_all add: seen_nth)

lemma spun_insert_mirror:
  assumes "n < length g" and "g ! n \<noteq> 3"
  shows "(spun g V)[n := (g ! n + 1) mod 3] = spun g (insert n V)"
  using assms by (intro nth_equalityI) (auto simp: spun_nth nth_list_update)

lemma spun_insert_none:
  assumes "g ! n = 3"
  shows "spun g (insert n V) = spun g V"
  using assms by (intro nth_equalityI) (auto simp: spun_nth)

lemma seen_insert_mirror:
  assumes "n < length g" and "g ! n \<noteq> 3"
  shows "(seen g V)[n := 1] = seen g (insert n V)"
  using assms by (intro nth_equalityI) (auto simp: seen_nth nth_list_update)

lemma seen_insert_none:
  assumes "g ! n = 3"
  shows "seen g (insert n V) = seen g V"
  using assms by (intro nth_equalityI) (auto simp: seen_nth)

lemma unspin: "v \<in> {0, 1, 2 :: int} \<Longrightarrow> c_mod ((v + 1) mod 3 + 2) 3 = v"
  by (auto simp: c_mod_def)

lemma spin: "v \<in> {0, 1, 2 :: int} \<Longrightarrow> c_mod (v + 1) 3 = (v + 1) mod 3"
  by (auto simp: c_mod_def)

text \<open>One iteration of the loop, on the grid and visited array reached after crossing \<open>V\<close>.\<close>

lemma traverse_done: "0 \<le> e \<Longrightarrow> traverse N r c d e g vis = Some (e, g)"
  by (subst traverse.simps) simp

lemma traverse_step:
  assumes ins: "inside N (r, c, d)" and len: "length g = nat (N * N)"
    and val: "\<forall>v\<in>set g. v \<in> {0, 1, 2, 3}" and neg: "p < 0"
  shows "traverse N r c d p (spun g V) (seen g V) =
     (case ray_step N g (r, c, d) of
        Inr e \<Rightarrow> Some (e, spun g (insert (cell N (r, c, d)) V))
      | Inl y \<Rightarrow> traverse N (fst y) (fst (snd y)) (snd (snd y)) p
                   (spun g (insert (cell N (r, c, d)) V)) (seen g (insert (cell N (r, c, d)) V)))"
proof -
  let ?n = "nat (r * N + c)"
  let ?G = "spun g V" and ?Vis = "seen g V"
  let ?g1 = "if ?Vis ! ?n \<noteq> 0 then ?G[?n := c_mod (?G ! ?n + 2) 3] else ?G"
  from cell_less[OF ins len] have n: "?n < length g" by (simp add: cell_def)
  with val have v: "g ! ?n \<in> {0, 1, 2, 3}" by (simp add: all_set_conv_all_nth del: insert_iff)
  have A: "?g1 ! ?n = g ! ?n"
  proof (cases "?n \<in> V \<and> g ! ?n \<noteq> 3")
    case True
    with v have "g ! ?n \<in> {0, 1, 2}" by auto
    from unspin[OF this] True n show ?thesis by (simp add: seen_nth spun_nth)
  next
    case False
    with n show ?thesis by (auto simp: seen_nth spun_nth)
  qed
  have B: "(if ?g1 ! ?n \<noteq> 3 then ?g1[?n := c_mod (?g1 ! ?n + 1) 3] else ?g1)
        = spun g (insert ?n V)"
  proof (cases "g ! ?n = 3")
    case True
    with n have "?g1 = ?G" by (simp add: seen_nth)
    with True A show ?thesis by (simp add: spun_insert_none)
  next
    case False
    with v have "g ! ?n \<in> {0, 1, 2}" by auto
    from spin[OF this] have s: "c_mod (g ! ?n + 1) 3 = (g ! ?n + 1) mod 3" .
    have "?g1[?n := (g ! ?n + 1) mod 3] = ?G[?n := (g ! ?n + 1) mod 3]" by simp
    also have "\<dots> = spun g (insert ?n V)" using n False by (rule spun_insert_mirror)
    finally show ?thesis using False by (simp only: A s if_True simp_thms)
  qed
  have C: "(if ?g1 ! ?n \<noteq> 3 then ?Vis[?n := 1] else ?Vis) = seen g (insert ?n V)"
  proof (cases "g ! ?n = 3")
    case True
    then show ?thesis by (simp only: A seen_insert_none simp_thms if_False)
  next
    case False
    from seen_insert_mirror[OF n False] False show ?thesis by (simp only: A simp_thms if_True)
  qed
  note step = traverse.simps[of N r c d p ?G ?Vis, unfolded Let_def, unfolded B C, unfolded A]
  from ins have i: "0 \<le> r" "r < N" "0 \<le> c" "c < N" by (simp_all add: inside_def)
  have ex: "0 \<le> c + N * 3" "0 \<le> r + N * 2" "0 \<le> r + N" "0 \<le> c" using i by simp_all
  show ?thesis
    using neg ex
    by (cases "reflect (g ! ?n) d") (simp_all add: step ray_step_def cell_def traverse_done)
qed

lemma traverse_run:
  assumes "run N g x S e" and "inside N x" and "length g = nat (N * N)"
    and "\<forall>v\<in>set g. v \<in> {0, 1, 2, 3}" and "p < 0"
  shows "traverse N (fst x) (fst (snd x)) (snd (snd x)) p (spun g V) (seen g V)
         = Some (e, spun g (S \<union> V))"
  using assms
proof (induction arbitrary: V rule: run.induct)
  case (run_exit x e)
  obtain r c d where x: "x = (r, c, d)" by (cases x)
  from run_exit.hyps traverse_step[of N r c d g p V] run_exit.prems show ?case
    by (simp add: x)
next
  case (run_step x y S e)
  obtain r c d where x: "x = (r, c, d)" by (cases x)
  from ray_step_inside[OF run_step.hyps(1) run_step.prems(1)] have iy: "inside N y" .
  from run_step.IH[OF iy run_step.prems(2,3,4), of "insert (cell N x) V"]
  have "traverse N (fst y) (fst (snd y)) (snd (snd y)) p (spun g (insert (cell N x) V))
          (seen g (insert (cell N x) V)) = Some (e, spun g (S \<union> insert (cell N x) V))" .
  moreover have "S \<union> insert (cell N x) V = insert (cell N x) S \<union> V" by blast
  ultimately show ?case
    using run_step.hyps(1) traverse_step[of N r c d g p V] run_step.prems by (simp add: x)
qed

section \<open>One call of the engine\<close>

lemma find_start_first:
  assumes "i \<le> s" and "s < N * 4" and "p ! nat s = ch"
    and "\<forall>k. i \<le> k \<and> k < s \<longrightarrow> p ! nat k \<noteq> ch"
  shows "find_start N p ch i = s"
  using assms
proof (induction "nat (s - i)" arbitrary: i)
  case 0
  then have "i = s" by simp
  with 0 show ?case by (subst find_start.simps) simp
next
  case (Suc n)
  then have lt: "i < s" by linarith
  with Suc.prems have ne: "p ! nat i \<noteq> ch" by simp
  have "find_start N p ch (i + 1) = s"
  proof (rule Suc.hyps(1))
    show "n = nat (s - (i + 1))" using Suc.hyps(2) by linarith
    show "i + 1 \<le> s" using lt by simp
    show "s < N * 4" by fact
    show "p ! nat s = ch" by fact
    show "\<forall>k. i + 1 \<le> k \<and> k < s \<longrightarrow> p ! nat k \<noteq> ch" using Suc.prems(4) by simp
  qed
  with lt ne Suc.prems(2) show ?case by (subst find_start.simps) simp
qed

lemma find_start_distinct:
  assumes "distinct p" and "length p = nat (N * 4)" and "0 \<le> s" and "s < N * 4"
  shows "find_start N p (p ! nat s) 0 = s"
proof (rule find_start_first)
  show "\<forall>k. 0 \<le> k \<and> k < s \<longrightarrow> p ! nat k \<noteq> p ! nat s"
  proof (intro allI impI)
    fix k assume "0 \<le> k \<and> k < s"
    then have "nat k < length p" "nat s < length p" "nat k \<noteq> nat s" using assms by auto
    with assms(1) show "p ! nat k \<noteq> p ! nat s" by (simp add: nth_eq_iff_index_eq)
  qed
qed (use assms in simp_all)

lemma find_start_missing_aux:
  assumes "\<forall>k. i \<le> k \<and> k < N * 4 \<longrightarrow> p ! nat k \<noteq> ch" and "i \<le> N * 4"
  shows "find_start N p ch i = N * 4"
  using assms
proof (induction "nat (N * 4 - i)" arbitrary: i)
  case 0
  then have "i = N * 4" by simp
  then show ?case by (subst find_start.simps) simp
next
  case (Suc n)
  then have lt: "i < N * 4" by linarith
  with Suc.prems have ne: "p ! nat i \<noteq> ch" by simp
  have "find_start N p ch (i + 1) = N * 4"
  proof (rule Suc.hyps(1))
    show "n = nat (N * 4 - (i + 1))" using Suc.hyps(2) by linarith
    show "\<forall>k. i + 1 \<le> k \<and> k < N * 4 \<longrightarrow> p ! nat k \<noteq> ch" using Suc.prems(1) by simp
    show "i + 1 \<le> N * 4" using lt by simp
  qed
  with lt ne show ?case by (subst find_start.simps) simp
qed

lemma find_start_missing:
  assumes "ch \<notin> set p" and "length p = nat (N * 4)"
  shows "entry N (find_start N p ch 0) = None"
proof (cases "0 \<le> N")
  case True
  have "\<forall>k. 0 \<le> k \<and> k < N * 4 \<longrightarrow> p ! nat k \<noteq> ch"
  proof (intro allI impI)
    fix k assume "0 \<le> k \<and> k < N * 4"
    then have "nat k < length p" using assms(2) by auto
    then have "p ! nat k \<in> set p" by (rule nth_mem)
    with assms(1) show "p ! nat k \<noteq> ch" by auto
  qed
  from find_start_missing_aux[OF this] True have "find_start N p ch 0 = N * 4" by simp
  with True show ?thesis by (simp add: entry_def)
next
  case False
  then have "find_start N p ch 0 = 0" by (subst find_start.simps) simp
  with False show ?thesis by (simp add: entry_def)
qed

lemma valid_keyD:
  assumes "valid_key N st"
  shows "length (grid st) = nat (N * N)" and "length (perimeterChars st) = nat (N * 4)"
    and "\<forall>v\<in>set (grid st). v \<in> {0, 1, 2, 3}" and "distinct (perimeterChars st)"
proof -
  from assms show l: "length (grid st) = nat (N * N)" "length (perimeterChars st) = nat (N * 4)"
    by (simp_all add: valid_key_def)
  from assms have c: "check_mirrors N (grid st) 0" "check_dup N (perimeterChars st) 0"
    by (auto simp: valid_key_def mirrorfield_validate_def split: if_splits)
  from c(1) l(1) show "\<forall>v\<in>set (grid st). v \<in> {0, 1, 2, 3}" by (simp only: check_mirrors_0)
  from c(2) l(2) show "distinct (perimeterChars st)" by (simp only: check_dup_0)
qed

lemma valid_keyI:
  assumes "length (grid st) = nat (N * N)" and "length (perimeterChars st) = nat (N * 4)"
    and "\<forall>v\<in>set (grid st). v \<in> {0, 1, 2, 3}" and "distinct (perimeterChars st)"
  shows "valid_key N st"
  using assms by (simp add: valid_key_def mirrorfield_validate_def check_mirrors_0 check_dup_0)

text \<open>A perimeter without duplicates has at most 256 slots, so \<open>N\<close> is at most 64.\<close>

lemma valid_key_slots:
  assumes "valid_key N st"
  shows "N * 4 \<le> 256"
proof -
  note v = valid_keyD[OF assms]
  have "card (set (perimeterChars st)) \<le> card (UNIV :: 8 word set)"
    by (rule card_mono) simp_all
  also have "card (UNIV :: 8 word set) = 256" by (simp add: card_word)
  finally have "length (perimeterChars st) \<le> 256" using v(4) by (simp add: distinct_card)
  with v(2) show ?thesis by linarith
qed

lemma slot_of_byte:
  assumes "ch \<in> set p" and "length p = nat (N * 4)"
  obtains s where "0 \<le> s" and "s < N * 4" and "p ! nat s = ch"
proof -
  from assms(1) obtain i where i: "i < length p" "p ! i = ch" by (auto simp: in_set_conv_nth)
  with assms(2) have "0 \<le> int i" "int i < N * 4" "p ! nat (int i) = ch" by auto
  then show ?thesis by (rule that)
qed

text \<open>A call on the byte at slot \<open>s\<close>, whose ray crosses \<open>S\<close> and leaves at \<open>e\<close>.\<close>

lemma crypt_char_run:
  assumes vk: "valid_key N st" and s: "0 \<le> s" "s < N * 4"
    and en: "entry N s = Some x" and r: "run N (grid st) x S e"
  shows "mirrorfield_crypt_char N (perimeterChars st ! nat s) st =
     (case mirrorfield_roll_chars N s e
             (st\<lparr>evenodd := c_mod (evenodd st + 1) 2, grid := spun (grid st) S\<rparr>) of
        None \<Rightarrow> None
      | Some st3 \<Rightarrow>
          Some (Inr (emitted (perimeterChars st) (c_mod (evenodd st + 1) 2) s e, st3)))"
proof -
  note v = valid_keyD[OF vk]
  obtain r0 c0 d0 where x: "x = (r0, c0, d0)" by (cases x)
  have fs: "find_start N (perimeterChars st) (perimeterChars st ! nat s) 0 = s"
    using v(4,2) s by (rule find_start_distinct)
  have "traverse N (fst x) (fst (snd x)) (snd (snd x)) (- 1) (spun (grid st) {})
          (seen (grid st) {})
        = Some (e, spun (grid st) (S \<union> {}))"
    using r entry_inside[OF en s(1)] v(1,3) by (rule traverse_run) simp
  then have tr: "traverse N r0 c0 d0 (- 1) (grid st) (replicate (nat (N * N)) 0)
        = Some (e, spun (grid st) S)"
    by (simp add: x spun_empty seen_empty v(1))
  show ?thesis
    by (simp add: mirrorfield_crypt_char_def Let_def fs en x tr emitted_def
        cong: option.case_cong)
qed

lemma crypt_char_known:
  assumes vk: "valid_key N st" and ch: "ch \<in> set (perimeterChars st)"
  obtains s e x S where "0 \<le> s" and "s < N * 4" and "perimeterChars st ! nat s = ch"
    and "entry N s = Some x" and "run N (grid st) x S e" and "0 \<le> e" and "e < N * 4"
    and "mirrorfield_crypt_char N ch st =
     (case mirrorfield_roll_chars N s e
             (st\<lparr>evenodd := c_mod (evenodd st + 1) 2, grid := spun (grid st) S\<rparr>) of
        None \<Rightarrow> None
      | Some st3 \<Rightarrow>
          Some (Inr (emitted (perimeterChars st) (c_mod (evenodd st + 1) 2) s e, st3)))"
proof -
  note v = valid_keyD[OF vk]
  from ch v(2) obtain s where s: "0 \<le> s" "s < N * 4" "perimeterChars st ! nat s = ch"
    by (rule slot_of_byte)
  from entry_Some[OF s(1,2)] obtain x where en: "entry N s = Some x" ..
  from run_exists[OF en s(1), of "grid st"] obtain S e where r: "run N (grid st) x S e" by blast
  from run_exit_range[OF r entry_inside[OF en s(1)]] have e: "0 \<le> e" "e < N * 4" by simp_all
  from crypt_char_run[OF vk s(1,2) en r] s(3) show ?thesis
    by (intro that[OF s en r e]) simp
qed

lemma spun_values:
  assumes "\<forall>v\<in>set g. v \<in> {0, 1, 2, 3}"
  shows "\<forall>v\<in>set (spun g S). v \<in> {0, 1, 2, 3}"
proof -
  have "\<And>t. t < length g \<Longrightarrow> spun g S ! t \<in> {0, 1, 2, 3}"
  proof -
    fix t assume t: "t < length g"
    with assms have "g ! t \<in> {0, 1, 2, 3}" by (simp add: all_set_conv_all_nth del: insert_iff)
    then show "spun g S ! t \<in> {0, 1, 2, 3}" using t by (auto simp: spun_nth)
  qed
  then show ?thesis by (simp add: all_set_conv_all_nth del: insert_iff)
qed

lemma spun_keeps_empty: "t < length g \<Longrightarrow> g ! t = 3 \<Longrightarrow> spun g S ! t = 3"
  by (simp add: spun_nth)

lemma crypt_char_result:
  assumes vk: "valid_key N st" and ch: "ch \<in> set (perimeterChars st)"
    and res: "mirrorfield_crypt_char N ch st = Some res"
  shows "\<exists>ech st1. res = Inr (ech, st1) \<and> valid_key N st1
           \<and> mset (perimeterChars st1) = mset (perimeterChars st)
           \<and> (\<forall>t<length (grid st). grid st ! t = 3 \<longrightarrow> grid st1 ! t = 3)"
proof -
  note v = valid_keyD[OF vk]
  from vk ch obtain s e x S where s: "0 \<le> s" "s < N * 4" and e: "0 \<le> e" "e < N * 4"
    and eq: "mirrorfield_crypt_char N ch st =
     (case mirrorfield_roll_chars N s e
             (st\<lparr>evenodd := c_mod (evenodd st + 1) 2, grid := spun (grid st) S\<rparr>) of
        None \<Rightarrow> None
      | Some st3 \<Rightarrow>
          Some (Inr (emitted (perimeterChars st) (c_mod (evenodd st + 1) 2) s e, st3)))"
    by (rule crypt_char_known)
  let ?st2 = "st\<lparr>evenodd := c_mod (evenodd st + 1) 2, grid := spun (grid st) S\<rparr>"
  from res eq obtain st3 where st3: "mirrorfield_roll_chars N s e ?st2 = Some st3"
    and r3: "res = Inr (emitted (perimeterChars st) (c_mod (evenodd st + 1) 2) s e, st3)"
    by (auto split: option.splits)
  have N: "0 < N" using s by linarith
  have "mset (perimeterChars st3) = mset (perimeterChars ?st2)
       \<and> length (perimeterChars st3) = length (perimeterChars ?st2)
       \<and> grid st3 = grid ?st2 \<and> evenodd st3 = evenodd ?st2 \<and> set_i st3 = set_i ?st2
       \<and> lastStartCharPos st3 = s \<and> lastEndCharPos st3 = e"
    using st3 N _ s(1) _ e(1)
  proof (rule roll_chars_result)
    show "length (perimeterChars ?st2) = nat (N * 4)" using v(2) by simp
    show "s < 4 * N" using s by simp
    show "e < 4 * N" using e by simp
  qed
  then have p: "mset (perimeterChars st3) = mset (perimeterChars st)"
    and l: "length (perimeterChars st3) = length (perimeterChars st)"
    and g: "grid st3 = spun (grid st) S" by simp_all
  from p v(4) have d: "distinct (perimeterChars st3)"
    by (metis mset_eq_imp_distinct_iff)
  have "valid_key N st3"
    using v(1,2) l g d spun_values[OF v(3), of S] by (intro valid_keyI) simp_all
  with r3 p g show ?thesis by (simp add: spun_keeps_empty)
qed

lemma crypt_char_total:
  assumes vk: "valid_key N st" and ch: "ch \<in> set (perimeterChars st)" and N: "2 \<le> N"
  shows "\<exists>ech st1. mirrorfield_crypt_char N ch st = Some (Inr (ech, st1))"
proof -
  from vk ch obtain s e x S where s: "0 \<le> s" "s < N * 4" and e: "0 \<le> e" "e < N * 4"
    and eq: "mirrorfield_crypt_char N ch st =
     (case mirrorfield_roll_chars N s e
             (st\<lparr>evenodd := c_mod (evenodd st + 1) 2, grid := spun (grid st) S\<rparr>) of
        None \<Rightarrow> None
      | Some st3 \<Rightarrow>
          Some (Inr (emitted (perimeterChars st) (c_mod (evenodd st + 1) 2) s e, st3)))"
    by (rule crypt_char_known)
  from s e have "s < 4 * N" "e < 4 * N" by simp_all
  from roll_chars_total[OF N s(1) this(1) e(1) this(2)]
  obtain st3 where "mirrorfield_roll_chars N s e
      (st\<lparr>evenodd := c_mod (evenodd st + 1) 2, grid := spun (grid st) S\<rparr>) = Some st3" ..
  with eq show ?thesis by simp
qed

section \<open>Sequences of calls\<close>

lemma crypt_stream_result:
  assumes "valid_key N st" and "set M \<subseteq> set (perimeterChars st)"
    and "crypt_stream N st M = Some res"
  shows "\<exists>C st1. res = Inr (C, st1) \<and> valid_key N st1 \<and> length C = length M
           \<and> mset (perimeterChars st1) = mset (perimeterChars st)
           \<and> (\<forall>t<length (grid st). grid st ! t = 3 \<longrightarrow> grid st1 ! t = 3)"
  using assms
proof (induction M arbitrary: st res)
  case Nil
  then show ?case by auto
next
  case (Cons ch M)
  from Cons.prems(2) have ch: "ch \<in> set (perimeterChars st)" by simp
  from Cons.prems(3) obtain r1 where r1: "mirrorfield_crypt_char N ch st = Some r1"
    by (auto split: option.splits)
  from crypt_char_result[OF Cons.prems(1) ch r1] obtain ech st1 where
    e1: "r1 = Inr (ech, st1)" and v1: "valid_key N st1"
    and m1: "mset (perimeterChars st1) = mset (perimeterChars st)"
    and g1: "\<forall>t<length (grid st). grid st ! t = 3 \<longrightarrow> grid st1 ! t = 3"
    by blast
  from m1 have "set (perimeterChars st1) = set (perimeterChars st)" by (rule mset_eq_setD)
  with Cons.prems(2) have sub: "set M \<subseteq> set (perimeterChars st1)" by simp
  from Cons.prems(3) r1 e1 obtain r2 where r2: "crypt_stream N st1 M = Some r2"
    by (auto split: option.splits)
  from Cons.IH[OF v1 sub r2] obtain C st2 where
    e2: "r2 = Inr (C, st2)" and v2: "valid_key N st2" and l2: "length C = length M"
    and m2: "mset (perimeterChars st2) = mset (perimeterChars st1)"
    and g2: "\<forall>t<length (grid st1). grid st1 ! t = 3 \<longrightarrow> grid st2 ! t = 3"
    by blast
  from Cons.prems(3) r1 e1 r2 e2 have res: "res = Inr (ech # C, st2)" by simp
  have "length (grid st1) = length (grid st)"
    using valid_keyD(1)[OF v1] valid_keyD(1)[OF Cons.prems(1)] by simp
  with g1 g2 have "\<forall>t<length (grid st). grid st ! t = 3 \<longrightarrow> grid st2 ! t = 3" by simp
  with res v2 l2 m1 m2 show ?case by simp
qed

lemma crypt_stream_total:
  assumes "valid_key N st" and "set M \<subseteq> set (perimeterChars st)" and "2 \<le> N"
  shows "\<exists>C st1. crypt_stream N st M = Some (Inr (C, st1))"
  using assms(1,2)
proof (induction M arbitrary: st)
  case Nil
  show ?case by simp
next
  case (Cons ch M)
  from Cons.prems(2) have ch: "ch \<in> set (perimeterChars st)" by simp
  from crypt_char_total[OF Cons.prems(1) ch assms(3)] obtain ech st1 where
    r1: "mirrorfield_crypt_char N ch st = Some (Inr (ech, st1))" by blast
  from crypt_char_result[OF Cons.prems(1) ch r1] have v1: "valid_key N st1"
    and m1: "mset (perimeterChars st1) = mset (perimeterChars st)" by auto
  from m1 have "set (perimeterChars st1) = set (perimeterChars st)" by (rule mset_eq_setD)
  with Cons.prems(2) have sub: "set M \<subseteq> set (perimeterChars st1)" by simp
  from Cons.IH[OF v1 sub] obtain C st2 where "crypt_stream N st1 M = Some (Inr (C, st2))"
    by blast
  with r1 show ?case by simp
qed

text \<open>
  Claim C2. For a key that passes validation and a message whose bytes are on the
  perimeter, any sequence of calls returns when \<open>N\<close> is at least 2, and whenever it
  returns the perimeter holds the multiset of bytes it held before, each on one slot.
\<close>

theorem perimeter_permutation:
  assumes "valid_key N st" and "set M \<subseteq> set (perimeterChars st)"
  shows "(2 \<le> N \<longrightarrow> (\<exists>C st1. crypt_stream N st M = Some (Inr (C, st1))))
       \<and> (\<forall>C st1. crypt_stream N st M = Some (Inr (C, st1)) \<longrightarrow>
             mset (perimeterChars st1) = mset (perimeterChars st)
             \<and> distinct (perimeterChars st1))"
proof (intro conjI impI allI)
  assume "2 \<le> N"
  with assms show "\<exists>C st1. crypt_stream N st M = Some (Inr (C, st1))"
    by (rule crypt_stream_total)
next
  fix C st1 assume r: "crypt_stream N st M = Some (Inr (C, st1))"
  from crypt_stream_result[OF assms r]
  have v: "valid_key N st1" and m: "mset (perimeterChars st1) = mset (perimeterChars st)"
    by auto
  from m show "mset (perimeterChars st1) = mset (perimeterChars st)" .
  from valid_keyD(4)[OF v] show "distinct (perimeterChars st1)" .
qed

theorem perimeter_permutation_witness:
  "valid_key 2 key2 \<and> set [65, 66, 72] \<subseteq> set (perimeterChars key2) \<and> (2::int) \<le> 2
   \<and> (\<exists>C st1. crypt_stream 2 key2 [65, 66, 72] = Some (Inr (C, st1))
         \<and> mset (perimeterChars st1) = mset (perimeterChars key2)
         \<and> distinct (perimeterChars st1))"
proof -
  have vk: "valid_key 2 key2" by code_simp
  have sub: "set [65, 66, 72] \<subseteq> set (perimeterChars key2)" by (simp add: key2_def)
  from perimeter_permutation[OF vk sub] vk sub show ?thesis by auto
qed

text \<open>
  Claim C3. Under the same conditions every grid cell holds one of 0, 1, 2, 3 after the
  calls, and a cell that was empty (code 3) before them is still empty.
\<close>

theorem grid_codes_and_empties:
  assumes "valid_key N st" and "set M \<subseteq> set (perimeterChars st)"
  shows "(2 \<le> N \<longrightarrow> (\<exists>C st1. crypt_stream N st M = Some (Inr (C, st1))))
       \<and> (\<forall>C st1. crypt_stream N st M = Some (Inr (C, st1)) \<longrightarrow>
             length (grid st1) = length (grid st)
             \<and> (\<forall>t<length (grid st). grid st1 ! t \<in> {0, 1, 2, 3}
                   \<and> (grid st ! t = 3 \<longrightarrow> grid st1 ! t = 3)))"
proof
  show "2 \<le> N \<longrightarrow> (\<exists>C st1. crypt_stream N st M = Some (Inr (C, st1)))"
    using assms by (auto intro: crypt_stream_total)
  show "\<forall>C st1. crypt_stream N st M = Some (Inr (C, st1)) \<longrightarrow>
             length (grid st1) = length (grid st)
             \<and> (\<forall>t<length (grid st). grid st1 ! t \<in> {0, 1, 2, 3}
                   \<and> (grid st ! t = 3 \<longrightarrow> grid st1 ! t = 3))"
  proof (intro allI impI)
    fix C st1 assume r: "crypt_stream N st M = Some (Inr (C, st1))"
    from crypt_stream_result[OF assms r]
    have v: "valid_key N st1"
      and g: "\<forall>t<length (grid st). grid st ! t = 3 \<longrightarrow> grid st1 ! t = 3"
      by auto
    have l: "length (grid st1) = length (grid st)"
      using valid_keyD(1)[OF v] valid_keyD(1)[OF assms(1)] by simp
    have "\<forall>t<length (grid st). grid st1 ! t \<in> {0, 1, 2, 3}"
      using l valid_keyD(3)[OF v] by (simp add: all_set_conv_all_nth del: insert_iff)
    with g l show "length (grid st1) = length (grid st)
             \<and> (\<forall>t<length (grid st). grid st1 ! t \<in> {0, 1, 2, 3}
                   \<and> (grid st ! t = 3 \<longrightarrow> grid st1 ! t = 3))"
      by blast
  qed
qed

theorem grid_codes_and_empties_witness:
  "valid_key 2 key2 \<and> set [65, 66, 72] \<subseteq> set (perimeterChars key2) \<and> (2::int) \<le> 2
   \<and> (\<exists>C st1. crypt_stream 2 key2 [65, 66, 72] = Some (Inr (C, st1))
         \<and> length (grid st1) = length (grid key2)
         \<and> (\<forall>t<length (grid key2). grid st1 ! t \<in> {0, 1, 2, 3}
               \<and> (grid key2 ! t = 3 \<longrightarrow> grid st1 ! t = 3)))"
proof -
  have vk: "valid_key 2 key2" by code_simp
  have sub: "set [65, 66, 72] \<subseteq> set (perimeterChars key2)" by (simp add: key2_def)
  from grid_codes_and_empties[OF vk sub] vk sub show ?thesis by auto
qed

lemma traverse_exit:
  assumes vk: "valid_key N st" and ch: "ch \<in> set (perimeterChars st)"
  shows "\<exists>s r c d e g. s = find_start N (perimeterChars st) ch 0 \<and> 0 \<le> s \<and> s < N * 4
           \<and> entry N s = Some (r, c, d)
           \<and> traverse N r c d (- 1) (grid st) (replicate (nat (N * N)) 0) = Some (e, g)
           \<and> 0 \<le> e \<and> e < N * 4"
proof -
  note v = valid_keyD[OF vk]
  from ch v(2) obtain s where s: "0 \<le> s" "s < N * 4" "perimeterChars st ! nat s = ch"
    by (rule slot_of_byte)
  from entry_Some[OF s(1,2)] obtain x where en: "entry N s = Some x" ..
  from run_exists[OF en s(1), of "grid st"] obtain S e where r: "run N (grid st) x S e" by blast
  from run_exit_range[OF r entry_inside[OF en s(1)]] have e: "0 \<le> e" "e < N * 4" by simp_all
  obtain r0 c0 d0 where x: "x = (r0, c0, d0)" by (cases x)
  have "find_start N (perimeterChars st) (perimeterChars st ! nat s) 0 = s"
    using v(4,2) s(1,2) by (rule find_start_distinct)
  then have fs: "find_start N (perimeterChars st) ch 0 = s" by (simp only: s(3))
  have "traverse N (fst x) (fst (snd x)) (snd (snd x)) (- 1) (spun (grid st) {})
          (seen (grid st) {})
        = Some (e, spun (grid st) (S \<union> {}))"
    using r entry_inside[OF en s(1)] v(1,3) by (rule traverse_run) simp
  then have "traverse N r0 c0 d0 (- 1) (grid st) (replicate (nat (N * N)) 0)
        = Some (e, spun (grid st) S)"
    by (simp add: x spun_empty seen_empty v(1))
  with fs en x s e show ?thesis by simp
qed

lemma roll_loops_total:
  assumes N: "2 \<le> N" and s: "0 \<le> s" and e: "0 \<le> e"
  shows "\<exists>rs re.
      roll_start_loop N s e l1 l2 (roll_pos N p s) = Some rs
    \<and> rs \<notin> {s, e, l1, l2} \<and> 0 \<le> rs \<and> rs < N * 4
    \<and> roll_end_loop N s e l1 l2 (roll_pos N p e) = Some re
    \<and> re \<notin> {s, e, l1, l2} \<and> 0 \<le> re \<and> re < N * 4"
proof -
  have N0: "0 < N" using N by simp
  note ps = roll_pos_range[OF N0 s, of p]
  note pe = roll_pos_range[OF N0 e, of p]
  from avoid_total[OF N, of "roll_pos N p s" s e l1 l2] ps
  obtain rs where rs: "spec_avoid N {s, e, l1, l2} (roll_pos N p s) = Some rs"
    "rs \<notin> {s, e, l1, l2}" "0 \<le> rs" "rs < 4 * N" by auto
  from avoid_total[OF N, of "roll_pos N p e" e s l2 l1] pe
  obtain re where re: "spec_avoid N {e, s, l2, l1} (roll_pos N p e) = Some re"
    "re \<notin> {e, s, l2, l1}" "0 \<le> re" "re < 4 * N" by auto
  have a: "roll_start_loop N s e l1 l2 (roll_pos N p s) = Some rs"
    using roll_start_loop_avoid[OF N0, of "roll_pos N p s" s e l1 l2] ps rs(1) by simp
  have b: "roll_end_loop N s e l1 l2 (roll_pos N p e) = Some re"
    using roll_end_loop_avoid[OF N0, of "roll_pos N p e" s e l1 l2] pe re(1) by simp
  from re(2) have "re \<notin> {s, e, l1, l2}" by auto
  with a b rs(2,3,4) re(3,4) show ?thesis by simp
qed

text \<open>
  Claim C10, for a grid of size at least 2. For a key that passes validation and an input
  byte that is on the perimeter, the scan finds the slot \<open>s\<close> of the byte, the traversal
  loop of \<open>mirrorfield_crypt_char\<close> started there returns, with \<open>endCharPos\<close> set to a
  perimeter slot \<open>e\<close> (this part holds for every \<open>N\<close>); and when \<open>N\<close> is at least 2 each of
  the two collision loops of \<open>mirrorfield_roll_chars\<close> returns a position within the
  perimeter that is none of the slots \<open>s\<close>, \<open>e\<close>, \<open>lastStartCharPos\<close>, \<open>lastEndCharPos\<close>,
  and the call returns an output byte and a state.
\<close>

theorem crypt_char_terminates:
  assumes "valid_key N st" and "ch \<in> set (perimeterChars st)"
  shows "\<exists>s r c d e g. s = find_start N (perimeterChars st) ch 0 \<and> 0 \<le> s \<and> s < N * 4
           \<and> entry N s = Some (r, c, d)
           \<and> traverse N r c d (- 1) (grid st) (replicate (nat (N * N)) 0) = Some (e, g)
           \<and> 0 \<le> e \<and> e < N * 4
           \<and> (2 \<le> N \<longrightarrow> (\<exists>rs re ech st1.
                 roll_start_loop N s e (lastStartCharPos st) (lastEndCharPos st)
                     (roll_pos N (perimeterChars st) s) = Some rs
               \<and> rs \<notin> {s, e, lastStartCharPos st, lastEndCharPos st} \<and> 0 \<le> rs \<and> rs < N * 4
               \<and> roll_end_loop N s e (lastStartCharPos st) (lastEndCharPos st)
                     (roll_pos N (perimeterChars st) e) = Some re
               \<and> re \<notin> {s, e, lastStartCharPos st, lastEndCharPos st} \<and> 0 \<le> re \<and> re < N * 4
               \<and> mirrorfield_crypt_char N ch st = Some (Inr (ech, st1))))"
proof -
  from traverse_exit[OF assms] obtain s r c d e g where
    t: "s = find_start N (perimeterChars st) ch 0" "0 \<le> s" "s < N * 4"
       "entry N s = Some (r, c, d)"
       "traverse N r c d (- 1) (grid st) (replicate (nat (N * N)) 0) = Some (e, g)"
       "0 \<le> e" "e < N * 4" by blast
  have "2 \<le> N \<longrightarrow> (\<exists>rs re ech st1.
                 roll_start_loop N s e (lastStartCharPos st) (lastEndCharPos st)
                     (roll_pos N (perimeterChars st) s) = Some rs
               \<and> rs \<notin> {s, e, lastStartCharPos st, lastEndCharPos st} \<and> 0 \<le> rs \<and> rs < N * 4
               \<and> roll_end_loop N s e (lastStartCharPos st) (lastEndCharPos st)
                     (roll_pos N (perimeterChars st) e) = Some re
               \<and> re \<notin> {s, e, lastStartCharPos st, lastEndCharPos st} \<and> 0 \<le> re \<and> re < N * 4
               \<and> mirrorfield_crypt_char N ch st = Some (Inr (ech, st1)))"
  proof
    assume N: "2 \<le> N"
    from roll_loops_total[OF N t(2) t(6), of "lastStartCharPos st" "lastEndCharPos st"
        "perimeterChars st"]
      crypt_char_total[OF assms N]
    show "\<exists>rs re ech st1.
                 roll_start_loop N s e (lastStartCharPos st) (lastEndCharPos st)
                     (roll_pos N (perimeterChars st) s) = Some rs
               \<and> rs \<notin> {s, e, lastStartCharPos st, lastEndCharPos st} \<and> 0 \<le> rs \<and> rs < N * 4
               \<and> roll_end_loop N s e (lastStartCharPos st) (lastEndCharPos st)
                     (roll_pos N (perimeterChars st) e) = Some re
               \<and> re \<notin> {s, e, lastStartCharPos st, lastEndCharPos st} \<and> 0 \<le> re \<and> re < N * 4
               \<and> mirrorfield_crypt_char N ch st = Some (Inr (ech, st1))" by blast
  qed
  with t show ?thesis by blast
qed

theorem crypt_char_terminates_witness:
  "valid_key 2 key2 \<and> 65 \<in> set (perimeterChars key2) \<and> (2::int) \<le> 2
   \<and> find_start 2 (perimeterChars key2) 65 0 = 0
   \<and> entry 2 0 = Some (0, 0, DIR_DOWN)
   \<and> traverse 2 0 0 DIR_DOWN (- 1) (grid key2) (replicate (nat (2 * 2)) 0)
       = Some (4, [1, 3, 2, 1])
   \<and> roll_start_loop 2 0 4 (lastStartCharPos key2) (lastEndCharPos key2)
         (roll_pos 2 (perimeterChars key2) 0) = Some 3
   \<and> roll_end_loop 2 0 4 (lastStartCharPos key2) (lastEndCharPos key2)
         (roll_pos 2 (perimeterChars key2) 4) = Some 5
   \<and> (\<exists>ech st1. mirrorfield_crypt_char 2 65 key2 = Some (Inr (ech, st1)))"
proof -
  have vk: "valid_key 2 key2" by code_simp
  have ch: "65 \<in> set (perimeterChars key2)" by (simp add: key2_def)
  have fs: "find_start 2 (perimeterChars key2) 65 0 = 0" by code_simp
  have en: "entry 2 0 = Some (0, 0, DIR_DOWN)" by code_simp
  have tr: "traverse 2 0 0 DIR_DOWN (- 1) (grid key2) (replicate (nat (2 * 2)) 0)
       = Some (4, [1, 3, 2, 1])" by code_simp
  have rs: "roll_start_loop 2 0 4 (lastStartCharPos key2) (lastEndCharPos key2)
         (roll_pos 2 (perimeterChars key2) 0) = Some 3" by code_simp
  have re: "roll_end_loop 2 0 4 (lastStartCharPos key2) (lastEndCharPos key2)
         (roll_pos 2 (perimeterChars key2) 4) = Some 5" by code_simp
  from crypt_char_terminates[OF vk ch]
  have "\<exists>ech st1. mirrorfield_crypt_char 2 65 key2 = Some (Inr (ech, st1))" by auto
  with vk ch fs en tr rs re show ?thesis by simp
qed

lemma crypt_char_missing:
  assumes "ch \<notin> set (perimeterChars st)" and "length (perimeterChars st) = nat (N * 4)"
  shows "mirrorfield_crypt_char N ch st
         = Some (Inl (Undefined_Behaviour (st\<lparr>evenodd := c_mod (evenodd st + 1) 2\<rparr>)))"
  using find_start_missing[OF assms]
  by (simp add: mirrorfield_crypt_char_def Let_def)

text \<open>
  Claim C4, as the code has it. A call on a byte that is on no slot of the perimeter
  toggles \<open>evenodd\<close>, scans the whole perimeter, assigns neither \<open>r\<close> nor \<open>c\<close> and enters
  the traversal loop reading both: no error is signalled and behaviour is undefined
  from there on.
\<close>

theorem crypt_char_unknown_input:
  "mirrorfield_crypt_char 2 90 key2 = Some (Inl (Undefined_Behaviour (key2\<lparr>evenodd := 1\<rparr>)))
   \<and> 90 \<notin> set (perimeterChars key2)
   \<and> evenodd (key2\<lparr>evenodd := 1\<rparr>) \<noteq> evenodd key2"
  by code_simp

section \<open>The grid of size one\<close>

text \<open>
  With \<open>N = 1\<close> the step \<open>N / 2\<close> of the collision loops is 0: a rolled position that
  collides stays where it is, and the call never returns.
\<close>

lemma roll_start_loop_stuck: "roll_start_loop 1 0 e l1 l2 0 = None"
proof (cases "roll_start_loop 1 0 e l1 l2 0")
  case (Some y)
  have "\<not> (1 = (1::int) \<and> (0::int) = 0 \<and> (0::int) = 0)"
  proof (rule roll_start_loop.raw_induct
      [where P = "\<lambda>N s e l1 l2 x y. \<not> (N = 1 \<and> s = 0 \<and> x = 0)", OF _ Some])
    fix loop :: "int \<Rightarrow> int \<Rightarrow> int \<Rightarrow> int \<Rightarrow> int \<Rightarrow> int \<Rightarrow> int option" and N s e l1 l2 x y
    assume IH: "\<And>N s e l1 l2 x y. loop N s e l1 l2 x = Some y \<Longrightarrow> \<not> (N = 1 \<and> s = 0 \<and> x = 0)"
      and eq: "(if x = s \<or> x = e \<or> x = l1 \<or> x = l2
                then loop N s e l1 l2 (c_mod (x + c_div N 2) (N * 4))
                else Some x) = Some y"
    show "\<not> (N = 1 \<and> s = 0 \<and> x = 0)"
    proof
      assume h: "N = 1 \<and> s = 0 \<and> x = 0"
      then have "c_mod (x + c_div N 2) (N * 4) = 0" by (simp add: c_mod_def c_div_def)
      with eq h have "loop 1 0 e l1 l2 0 = Some y" by simp
      from IH[OF this] show False by simp
    qed
  qed
  then show ?thesis by simp
qed simp

text \<open>
  Claim C10 as worded, for every key that passes validation, fails for \<open>N = 1\<close>: the key
  with one empty cell and the perimeter bytes 4, 8, 1, 2 passes validation, the byte 4 is
  on slot 0, the traversal returns the exit slot 3, the rolled position of slot 0 is
  \<open>(0 + 4 + 8) mod 4 = 0\<close>, the start slot itself, and the first collision loop never
  leaves it, so the call does not return.
\<close>

theorem grid_size_one_never_returns:
  "valid_key 1 key1 \<and> 4 \<in> set (perimeterChars key1)
   \<and> find_start 1 (perimeterChars key1) 4 0 = 0
   \<and> entry 1 0 = Some (0, 0, DIR_DOWN)
   \<and> traverse 1 0 0 DIR_DOWN (- 1) (grid key1) (replicate (nat (1 * 1)) 0) = Some (3, [3])
   \<and> roll_start_loop 1 0 3 (lastStartCharPos key1) (lastEndCharPos key1)
        (roll_pos 1 (perimeterChars key1) 0) = None
   \<and> mirrorfield_crypt_char 1 4 key1 = None"
proof -
  have vk: "valid_key 1 key1" by code_simp
  have fs: "find_start 1 (perimeterChars key1) 4 0 = 0" by code_simp
  have en: "entry 1 0 = Some (0, 0, DIR_DOWN)" by code_simp
  have tr: "traverse 1 0 0 DIR_DOWN (- 1) [3] [0] = Some (3, [3])" by code_simp
  have rp: "roll_pos 1 [4, 8, 1, 2] 0 = 0" by code_simp
  have roll: "mirrorfield_roll_chars 1 0 3 (key1\<lparr>evenodd := 1, grid := [3]\<rparr>) = None"
    by (simp add: mirrorfield_roll_chars_def key1_def rp roll_start_loop_stuck)
  have eo: "c_mod (evenodd key1 + 1) 2 = 1" by code_simp
  have "mirrorfield_crypt_char 1 4 key1 = None"
    using fs tr roll eo
    by (simp add: mirrorfield_crypt_char_def Let_def entry_def key1_def)
  with vk fs en tr rp show ?thesis by (simp add: key1_def roll_start_loop_stuck)
qed

section \<open>A grid without mirrors\<close>

lemma empty_step:
  assumes em: "\<forall>v\<in>set g. v = 3" and len: "length g = nat (N * N)" and ins: "inside N (r, c, d)"
  shows "ray_step N g (r, c, d) =
     (case d of
        DIR_DOWN \<Rightarrow> if r + 1 = N then Inr (c + N * 3) else Inl (r + 1, c, DIR_DOWN)
      | DIR_LEFT \<Rightarrow> if c - 1 = - 1 then Inr (r + N * 2) else Inl (r, c - 1, DIR_LEFT)
      | DIR_RIGHT \<Rightarrow> if c + 1 = N then Inr (r + N) else Inl (r, c + 1, DIR_RIGHT)
      | DIR_UP \<Rightarrow> if r - 1 = - 1 then Inr c else Inl (r - 1, c, DIR_UP))"
proof -
  from cell_less[OF ins len] have "nat (r * N + c) < length g" by (simp add: cell_def)
  then have "g ! nat (r * N + c) \<in> set g" by (rule nth_mem)
  with em have "g ! nat (r * N + c) = 3" by simp
  then have "reflect (g ! nat (r * N + c)) d = d" by (simp add: reflect_def)
  then show ?thesis by (simp add: ray_step_def)
qed

lemma empty_run_exit:
  assumes "run N g x S e" and "\<forall>v\<in>set g. v = 3" and "length g = nat (N * N)"
    and "inside N x"
  shows "e = straight_exit N x"
  using assms
proof (induction rule: run.induct)
  case (run_exit x e)
  obtain r c d where x: "x = (r, c, d)" by (cases x)
  from run_exit.prems(3) have "inside N (r, c, d)" by (simp only: x)
  from empty_step[OF run_exit.prems(1,2) this] run_exit.hyps show ?case
    by (cases d) (auto simp: x straight_exit_def split: if_splits)
next
  case (run_step x y S e)
  obtain r c d where x: "x = (r, c, d)" by (cases x)
  from run_step.prems(3) have "inside N (r, c, d)" by (simp only: x)
  from empty_step[OF run_step.prems(1,2) this] run_step.hyps(1)
  have "straight_exit N y = straight_exit N x"
    by (cases d) (auto simp: x straight_exit_def split: if_splits)
  moreover from ray_step_inside[OF run_step.hyps(1) run_step.prems(3)] have "inside N y" .
  ultimately show ?case using run_step.IH run_step.prems by simp
qed

lemma entry_straight_exit:
  assumes "entry N s = Some x" and "0 \<le> s"
  shows "straight_exit N x = opposite_slot N s"
  using assms
  by (auto simp: entry_def straight_exit_def opposite_slot_def split: if_splits)

lemma spun_all_empty:
  assumes "\<forall>v\<in>set g. v = 3"
  shows "spun g S = g"
proof (rule nth_equalityI)
  show "length (spun g S) = length g" by simp
  fix t assume "t < length (spun g S)"
  then have t: "t < length g" by simp
  then have "g ! t \<in> set g" by (rule nth_mem)
  with assms have "g ! t = 3" by simp
  with t show "spun g S ! t = g ! t" by (simp add: spun_nth)
qed

text \<open>
  Claim C8. For a key that passes validation and whose grid has no mirror, the call on
  the byte at slot \<open>s\<close> finds that slot, its traversal ends at the slot across the grid
  (\<open>s + 3N\<close>, \<open>s + N\<close>, \<open>s - N\<close>, \<open>s - 3N\<close> for the four edges) with every grid cell as it
  was, and for \<open>N\<close> at least 2 the call returns with the grid unchanged and these two
  slots remembered as the start and end position.
\<close>

theorem empty_grid_straight_across:
  assumes vk: "valid_key N st" and em: "\<forall>v\<in>set (grid st). v = 3"
    and s: "0 \<le> s" "s < N * 4"
  shows "find_start N (perimeterChars st) (perimeterChars st ! nat s) 0 = s
       \<and> (\<exists>r c d. entry N s = Some (r, c, d)
             \<and> traverse N r c d (- 1) (grid st) (replicate (nat (N * N)) 0)
                 = Some (opposite_slot N s, grid st))
       \<and> (2 \<le> N \<longrightarrow>
            (\<exists>ech st1. mirrorfield_crypt_char N (perimeterChars st ! nat s) st
                           = Some (Inr (ech, st1))
               \<and> grid st1 = grid st
               \<and> lastStartCharPos st1 = s \<and> lastEndCharPos st1 = opposite_slot N s))"
proof (intro conjI impI)
  note v = valid_keyD[OF vk]
  show "find_start N (perimeterChars st) (perimeterChars st ! nat s) 0 = s"
    using v(4,2) s by (rule find_start_distinct)
  from entry_Some[OF s] obtain x where en: "entry N s = Some x" ..
  obtain r0 c0 d0 where x: "x = (r0, c0, d0)" by (cases x)
  from run_exists[OF en s(1), of "grid st"] obtain S e where r: "run N (grid st) x S e" by blast
  from empty_run_exit[OF r em v(1) entry_inside[OF en s(1)]] entry_straight_exit[OF en s(1)]
  have e: "e = opposite_slot N s" by simp
  have "traverse N (fst x) (fst (snd x)) (snd (snd x)) (- 1) (spun (grid st) {})
          (seen (grid st) {})
        = Some (e, spun (grid st) (S \<union> {}))"
    using r entry_inside[OF en s(1)] v(1,3) by (rule traverse_run) simp
  then have "traverse N r0 c0 d0 (- 1) (grid st) (replicate (nat (N * N)) 0)
        = Some (opposite_slot N s, grid st)"
    by (simp add: x spun_empty seen_empty v(1) e spun_all_empty[OF em])
  with en x show "\<exists>r c d. entry N s = Some (r, c, d)
             \<and> traverse N r c d (- 1) (grid st) (replicate (nat (N * N)) 0)
                 = Some (opposite_slot N s, grid st)" by simp
  assume N: "2 \<le> N"
  let ?st2 = "st\<lparr>evenodd := c_mod (evenodd st + 1) 2, grid := spun (grid st) S\<rparr>"
  from run_exit_range[OF r entry_inside[OF en s(1)]] have er: "0 \<le> e" "e < 4 * N" by simp_all
  from s have s4: "s < 4 * N" by simp
  from roll_chars_total[OF N s(1) s4 er] obtain st3 where
    st3: "mirrorfield_roll_chars N s e ?st2 = Some st3" ..
  have "mset (perimeterChars st3) = mset (perimeterChars ?st2)
       \<and> length (perimeterChars st3) = length (perimeterChars ?st2)
       \<and> grid st3 = grid ?st2 \<and> evenodd st3 = evenodd ?st2 \<and> set_i st3 = set_i ?st2
       \<and> lastStartCharPos st3 = s \<and> lastEndCharPos st3 = e"
    using st3 _ _ s(1) s4 er
  proof (rule roll_chars_result)
    show "0 < N" using N by simp
    show "length (perimeterChars ?st2) = nat (N * 4)" using v(2) by simp
  qed
  then have "grid st3 = grid st" "lastStartCharPos st3 = s" "lastEndCharPos st3 = opposite_slot N s"
    by (simp_all add: spun_all_empty[OF em] e)
  with crypt_char_run[OF vk s en r] st3
  show "\<exists>ech st1. mirrorfield_crypt_char N (perimeterChars st ! nat s) st
                           = Some (Inr (ech, st1))
               \<and> grid st1 = grid st
               \<and> lastStartCharPos st1 = s \<and> lastEndCharPos st1 = opposite_slot N s"
    by simp
qed

theorem empty_grid_straight_across_witness:
  "valid_key 2 key2_empty \<and> set (grid key2_empty) = {3} \<and> (0::int) \<le> 5 \<and> (5::int) < 2 * 4
   \<and> (2::int) \<le> 2 \<and> opposite_slot 2 5 = 3
   \<and> traverse 2 1 0 DIR_RIGHT (- 1) (grid key2_empty) (replicate (nat (2 * 2)) 0)
       = Some (3, grid key2_empty)
   \<and> (\<exists>ech st1. mirrorfield_crypt_char 2 70 key2_empty = Some (Inr (ech, st1))
         \<and> grid st1 = grid key2_empty \<and> lastStartCharPos st1 = 5 \<and> lastEndCharPos st1 = 3)"
proof -
  have vk: "valid_key 2 key2_empty" by code_simp
  have em: "\<forall>v\<in>set (grid key2_empty). v = 3" by (simp add: key2_empty_def)
  have o: "opposite_slot 2 5 = 3" by (simp add: opposite_slot_def)
  have b: "perimeterChars key2_empty ! 5 = 70" by (simp add: key2_empty_def)
  have en: "entry 2 5 = Some (1, 0, DIR_RIGHT)" by (simp add: entry_def)
  have g: "set (grid key2_empty) = {3}" by (simp add: key2_empty_def)
  from empty_grid_straight_across[OF vk em, of 5] show ?thesis
    using vk g by (simp add: o b en)
qed

section \<open>The round trip\<close>






text \<open>
  A perimeter of fewer than 256 slots leaves some byte out, and a message holding such a
  byte stops the engine at its first occurrence.
\<close>

lemma unknown_byte_exists:
  assumes "valid_key N st" and "N < 64"
  shows "\<exists>ch. ch \<notin> set (perimeterChars st)
           \<and> crypt_stream N st [ch]
               = Some (Inl (Undefined_Behaviour (st\<lparr>evenodd := c_mod (evenodd st + 1) 2\<rparr>)))"
proof -
  note v = valid_keyD[OF assms(1)]
  have "card (set (perimeterChars st)) \<le> length (perimeterChars st)" by (rule card_length)
  also have "\<dots> < 256" using v(2) assms(2) by linarith
  also have "256 = card (UNIV :: 8 word set)" by (simp add: card_word)
  finally have "set (perimeterChars st) \<noteq> UNIV" by auto
  then obtain ch where ch: "ch \<notin> set (perimeterChars st)" by blast
  from crypt_char_missing[OF ch v(2)] ch show ?thesis by auto
qed


end
